theory Spec2Isabelle
  imports Complex_Main "HOL-Library.Multiset" "HOL-Library.Char_ord" "HOL-Library.List_Lexorder"
begin

section \<open>Shard orchestrator (packages/testing/janitor/src/core/orchestrator)\<close>

text \<open>
  Durations are JavaScript numbers holding millisecond counts. They are modelled as
  unbounded integers with exact arithmetic; the only places where the source leaves the
  integers are the two divisions of \<open>splitLargeGroups\<close>, whose results are modelled
  by \<open>jsnum\<close> below (exact rationals plus the IEEE special values a division by zero
  produces). Rounding of doubles is outside this first model; a second model, further
  down, writes the rounding out and is the one used where the value of a sum matters.
\<close>

subsection \<open>Data model\<close>

record DiscoveredSpec =
  path :: string
  capabilities :: "string list"

record SpecWithDuration = DiscoveredSpec +
  duration :: int

record PackingItem =
  capability :: "string option"
  item_specs :: "string list"
  item_duration :: int

record Bucket =
  bucket_specs :: "string list"
  bucket_testTime :: int
  bucket_capabilities :: "string list"
  hasStandardSpecs :: bool

record ShardAssignment =
  shard :: nat
  specs :: "string list"
  testTime :: int
  shard_capabilities :: "string list"
  fixtureCount :: nat

record OrchestrationResult =
  shards :: "ShardAssignment list"
  totalTestTime :: int

record OrchestrationConfig =
  defaultDuration :: int
  maxGroupDuration :: int

datatype error = TypeError

subsection \<open>The results of JavaScript division\<close>

datatype jsnum = Fin rat | NegZero | PosInf | NegInf | NaN

text \<open>\<open>a / d\<close> for a finite integer-valued \<open>a\<close> (never negative zero).\<close>

fun js_div :: "int \<Rightarrow> jsnum \<Rightarrow> jsnum" where
  "js_div a (Fin q) =
     (if q = 0 then (if a = 0 then NaN else if 0 < a then PosInf else NegInf)
      else if a = 0 \<and> q < 0 then NegZero
      else Fin (of_int a / q))"
| "js_div a NegZero = (if a = 0 then NaN else if 0 < a then NegInf else PosInf)"
| "js_div a PosInf = (if a < 0 then NegZero else Fin 0)"
| "js_div a NegInf = (if a < 0 then Fin 0 else NegZero)"
| "js_div a NaN = NaN"

fun Math_ceil :: "jsnum \<Rightarrow> jsnum" where
  "Math_ceil (Fin q) = (if - 1 < q \<and> q < 0 then NegZero else Fin (of_int \<lceil>q\<rceil>))"
| "Math_ceil x = x"

text \<open>\<open>x > y\<close> for a finite integer-valued \<open>x\<close>.\<close>

fun js_gt :: "int \<Rightarrow> jsnum \<Rightarrow> bool" where
  "js_gt x (Fin q) = (q < of_int x)"
| "js_gt x NegZero = (0 < x)"
| "js_gt x PosInf = False"
| "js_gt x NegInf = True"
| "js_gt x NaN = False"

subsection \<open>enrichWithDuration\<close>

text \<open>\<open>metrics[spec.path] || defaultDuration\<close>: an absent key and a stored \<open>0\<close> are
  both falsy.\<close>

definition enrichWithDuration ::
  "DiscoveredSpec list \<Rightarrow> (string \<rightharpoonup> int) \<Rightarrow> int \<Rightarrow> SpecWithDuration list" where
  "enrichWithDuration sps metrics dflt =
     map (\<lambda>spec. \<lparr>path = path spec, capabilities = capabilities spec,
                  duration = (case metrics (path spec) of
                                None \<Rightarrow> dflt
                              | Some d \<Rightarrow> if d \<noteq> 0 then d else dflt)\<rparr>) sps"

subsection \<open>groupByCapability\<close>

text \<open>The \<open>Map\<close> of groups keeps its keys in insertion order: an association list.\<close>

fun groups_push ::
  "string \<Rightarrow> SpecWithDuration \<Rightarrow> (string \<times> SpecWithDuration list) list
   \<Rightarrow> (string \<times> SpecWithDuration list) list" where
  "groups_push cap spec [] = [(cap, [spec])]"
| "groups_push cap spec ((k, ss) # g) =
     (if k = cap then (k, ss @ [spec]) # g else (k, ss) # groups_push cap spec g)"

definition group_step ::
  "(string \<times> SpecWithDuration list) list \<times> SpecWithDuration list \<Rightarrow> SpecWithDuration
   \<Rightarrow> (string \<times> SpecWithDuration list) list \<times> SpecWithDuration list" where
  "group_step st spec =
     (case capabilities spec of
        cap # _ \<Rightarrow> (groups_push cap spec (fst st), snd st)
      | [] \<Rightarrow> (fst st, snd st @ [spec]))"

definition groupByCapability ::
  "SpecWithDuration list \<Rightarrow> (string \<times> SpecWithDuration list) list \<times> SpecWithDuration list" where
  "groupByCapability sps = foldl group_step ([], []) sps"

subsection \<open>splitLargeGroups\<close>

text \<open>\<open>Array.prototype.sort\<close> is stable; \<open>(a, b) => b.duration - a.duration\<close> orders by
  descending duration.\<close>

definition sort_desc :: "('a \<Rightarrow> int) \<Rightarrow> 'a list \<Rightarrow> 'a list" where
  "sort_desc f xs = sort_key (\<lambda>x. - f x) xs"

definition total_duration :: "SpecWithDuration list \<Rightarrow> int" where
  "total_duration sps = foldl (\<lambda>sum s. sum + duration s) 0 sps"

text \<open>One iteration of the inner loop over the sorted members; the state is
  \<open>(subGroups, currentTotal)\<close>.\<close>

definition accumulate ::
  "jsnum \<Rightarrow> SpecWithDuration list list \<times> int \<Rightarrow> SpecWithDuration
   \<Rightarrow> SpecWithDuration list list \<times> int" where
  "accumulate targetPerSubGroup st spec =
     (let (subGroups, currentTotal) = st;
          (subGroups1, currentTotal1) =
             (if js_gt (currentTotal + duration spec) targetPerSubGroup
                 \<and> length (last subGroups) > 0
              then (subGroups @ [[]], 0)
              else (subGroups, currentTotal))
      in (butlast subGroups1 @ [last subGroups1 @ [spec]], currentTotal1 + duration spec))"

definition make_item :: "string \<Rightarrow> SpecWithDuration list \<Rightarrow> PackingItem" where
  "make_item cap sps =
     \<lparr>capability = Some cap, item_specs = map path sps, item_duration = total_duration sps\<rparr>"

definition split_group :: "int \<Rightarrow> string \<times> SpecWithDuration list \<Rightarrow> PackingItem list" where
  "split_group maxGD g =
     (let cap = fst g;
          sps = sort_desc duration (snd g);
          totalDuration = total_duration sps
      in if totalDuration > maxGD \<and> length sps > 1 then
           (let numSubGroups = Math_ceil (js_div totalDuration (Fin (of_int maxGD)));
                targetPerSubGroup = js_div totalDuration numSubGroups;
                subGroups = fst (foldl (accumulate targetPerSubGroup) ([[]], 0) sps)
            in map (make_item cap) subGroups)
         else [make_item cap sps])"

definition splitLargeGroups ::
  "(string \<times> SpecWithDuration list) list \<Rightarrow> int \<Rightarrow> PackingItem list" where
  "splitLargeGroups groups maxGD = concat (map (split_group maxGD) groups)"

subsection \<open>assignToShards\<close>

definition empty_bucket :: Bucket where
  "empty_bucket =
     \<lparr>bucket_specs = [], bucket_testTime = 0, bucket_capabilities = [], hasStandardSpecs = False\<rparr>"

text \<open>\<open>buckets.reduce((min, b) => (b.testTime < min.testTime ? b : min))\<close> without an
  initial value: a \<open>TypeError\<close> on the empty array, otherwise the accumulator starts at
  element 0. The bucket is returned by reference, here as its index.\<close>

definition lightest :: "Bucket list \<Rightarrow> error + nat" where
  "lightest buckets =
     (if buckets = [] then Inl TypeError
      else Inr (foldl (\<lambda>m i. if bucket_testTime (buckets ! i) < bucket_testTime (buckets ! m)
                              then i else m) 0 [1 ..< length buckets]))"

text \<open>\<open>Set.prototype.add\<close> on an insertion-ordered set.\<close>

definition set_add :: "'a \<Rightarrow> 'a list \<Rightarrow> 'a list" where
  "set_add x xs = (if x \<in> set xs then xs else xs @ [x])"

text \<open>\<open>if (item.capability)\<close> tests truthiness: \<open>null\<close> and the empty string are falsy.\<close>

definition add_item :: "Bucket \<Rightarrow> PackingItem \<Rightarrow> Bucket" where
  "add_item b item =
     (let b1 = b\<lparr>bucket_specs := bucket_specs b @ item_specs item,
                 bucket_testTime := bucket_testTime b + item_duration item\<rparr>
      in case capability item of
           Some c \<Rightarrow> (if c \<noteq> [] then b1\<lparr>bucket_capabilities := set_add c (bucket_capabilities b1)\<rparr>
                      else b1\<lparr>hasStandardSpecs := True\<rparr>)
         | None \<Rightarrow> b1\<lparr>hasStandardSpecs := True\<rparr>)"

fun assign_loop :: "PackingItem list \<Rightarrow> Bucket list \<Rightarrow> error + Bucket list" where
  "assign_loop [] buckets = Inr buckets"
| "assign_loop (item # rest) buckets =
     (case lightest buckets of
        Inl e \<Rightarrow> Inl e
      | Inr i \<Rightarrow> assign_loop rest (buckets[i := add_item (buckets ! i) item]))"

definition assignToShards :: "PackingItem list \<Rightarrow> nat \<Rightarrow> error + Bucket list" where
  "assignToShards items numShards =
     (let allItems = sort_desc item_duration items;
          buckets = replicate numShards empty_bucket
      in assign_loop allItems buckets)"

subsection \<open>orchestrate\<close>

definition standard_item :: "SpecWithDuration \<Rightarrow> PackingItem" where
  "standard_item spec =
     \<lparr>capability = None, item_specs = [path spec], item_duration = duration spec\<rparr>"

definition to_shard :: "nat \<times> Bucket \<Rightarrow> ShardAssignment" where
  "to_shard ib =
     (let i = fst ib; b = snd ib
      in \<lparr>shard = i + 1,
          specs = bucket_specs b,
          testTime = bucket_testTime b,
          shard_capabilities = sort (bucket_capabilities b),
          fixtureCount = length (bucket_capabilities b) + (if hasStandardSpecs b then 1 else 0)\<rparr>)"

definition finalize :: "Bucket list \<Rightarrow> ShardAssignment list" where
  "finalize buckets =
     map to_shard (enumerate 0 (filter (\<lambda>b. length (bucket_specs b) > 0) buckets))"

definition packing_items :: "SpecWithDuration list \<Rightarrow> int \<Rightarrow> PackingItem list" where
  "packing_items enriched maxGD =
     (let (groups, standard) = groupByCapability enriched;
          capabilityItems = splitLargeGroups groups maxGD;
          standardItems = map standard_item standard
      in capabilityItems @ standardItems)"

definition orchestrate ::
  "DiscoveredSpec list \<Rightarrow> nat \<Rightarrow> (string \<rightharpoonup> int) \<Rightarrow> OrchestrationConfig
   \<Rightarrow> error + OrchestrationResult" where
  "orchestrate sps numShards metrics config =
     (let enriched = enrichWithDuration sps metrics (defaultDuration config);
          items = packing_items enriched (maxGroupDuration config)
      in case assignToShards items numShards of
           Inl e \<Rightarrow> Inl e
         | Inr buckets \<Rightarrow>
             Inr \<lparr>shards = finalize buckets, totalTestTime = total_duration enriched\<rparr>)"

section \<open>Test discovery analyzer (packages/testing/janitor/src/core/test-discovery-analyzer.ts)\<close>

subsection \<open>Syntax trees\<close>

text \<open>
  The analyzer reads a parsed source file through a syntax-tree library. The tree is
  modelled by the node kinds the analyzer distinguishes. A call expression carries the text
  of its callee (\<open>getExpression().getText()\<close>), the callee expression itself and the
  arguments; a function expression always has a block body, given by the start offset
  and the statements of that block; an arrow function has a block or an expression as
  body; a block carries its start offset (\<open>getStart()\<close>); every other node is \<open>Other\<close>
  with its children.
\<close>

datatype node =
    CallExpression string node "node list"
  | StringLiteral string
  | NoSubstitutionTemplateLiteral string
  | ArrowFunction node
  | FunctionExpression nat "node list"
  | Block nat "node list"
  | Other "node list"

record SourceFile =
  filePath :: string
  statements :: "node list"

record DiscoveryConfig =
  skipTags :: "string list"
  capabilityPrefix :: string

record TestCallInfo =
  skipped :: bool
  isDescribe :: bool
  tags :: "string list"

text \<open>What the analyzer reads of one call expression: the callee text, the arguments, and
  the start offsets of the enclosing blocks, innermost first (the chain that repeated
  \<open>getFirstAncestorByKind(SyntaxKind.Block)\<close> walks).\<close>

record CallSite =
  expr :: string
  args :: "node list"
  blocks :: "nat list"

text \<open>\<open>getDescendantsOfKind(SyntaxKind.CallExpression)\<close>: the call expressions below a node,
  in document order, each with its chain of enclosing blocks.\<close>

fun calls_in :: "nat list \<Rightarrow> node \<Rightarrow> CallSite list" where
  "calls_in anc (CallExpression t callee as) =
     \<lparr>expr = t, args = as, blocks = anc\<rparr>
       # calls_in anc callee @ concat (map (calls_in anc) as)"
| "calls_in anc (StringLiteral t) = []"
| "calls_in anc (NoSubstitutionTemplateLiteral t) = []"
| "calls_in anc (ArrowFunction body) = calls_in anc body"
| "calls_in anc (FunctionExpression s stmts) = concat (map (calls_in (s # anc)) stmts)"
| "calls_in anc (Block s stmts) = concat (map (calls_in (s # anc)) stmts)"
| "calls_in anc (Other children) = concat (map (calls_in anc) children)"

definition call_expressions :: "SourceFile \<Rightarrow> CallSite list" where
  "call_expressions file = concat (map (calls_in []) (statements file))"

subsection \<open>parseTags\<close>

text \<open>\<open>TAG_PATTERN = /@[\w:-]+/g\<close>: an \<open>@\<close> followed by a longest non-empty run of word
  characters, colons and hyphens; matches do not overlap.\<close>

definition tag_char :: "char \<Rightarrow> bool" where
  "tag_char c =
     (let n = (of_char c :: nat)
      in (48 \<le> n \<and> n \<le> 57) \<or> (65 \<le> n \<and> n \<le> 90) \<or> (97 \<le> n \<and> n \<le> 122)
         \<or> c = CHR ''_'' \<or> c = CHR '':'' \<or> c = CHR ''-'')"

function parseTags :: "string \<Rightarrow> string list" where
  "parseTags [] = []"
| "parseTags (c # cs) =
     (if c = CHR ''@'' \<and> takeWhile tag_char cs \<noteq> []
      then (c # takeWhile tag_char cs) # parseTags (dropWhile tag_char cs)
      else parseTags cs)"
  by pat_completeness auto
termination
  by (relation "measure length") (auto simp: length_dropWhile_le less_Suc_eq_le)

subsection \<open>extractTitle and parseTestCall\<close>

fun extractTitle :: "node list \<Rightarrow> string option" where
  "extractTitle [] = None"
| "extractTitle (StringLiteral t # _) = Some t"
| "extractTitle (NoSubstitutionTemplateLiteral t # _) = Some t"
| "extractTitle (_ # _) = None"

definition parseTestCall :: "CallSite \<Rightarrow> string list \<Rightarrow> TestCallInfo option" where
  "parseTestCall call skipTagList =
     (let isTest = (expr call = ''test'' \<or> expr call = ''test.only'');
          isDescr = (expr call = ''test.describe'');
          isFixme = (expr call = ''test.fixme'');
          isSkip = (expr call = ''test.skip'')
      in if \<not> isTest \<and> \<not> isDescr \<and> \<not> isFixme \<and> \<not> isSkip then None
         else case extractTitle (args call) of
                None \<Rightarrow> None
              | Some title \<Rightarrow>
                  (let tgs = parseTags title;
                       skippedByCall = (isFixme \<or> isSkip);
                       skippedByTag = list_ex (\<lambda>tag. tag \<in> set skipTagList) tgs
                   in Some \<lparr>skipped = (skippedByCall \<or> skippedByTag),
                            isDescribe = isDescr, tags = tgs\<rparr>))"

subsection \<open>Skipped scopes\<close>

definition extractSkippedBlock :: "CallSite \<Rightarrow> nat option" where
  "extractSkippedBlock call =
     (if expr call \<noteq> ''test.fixme'' \<and> expr call \<noteq> ''test.skip'' then None
      else if args call = [] then
        (case blocks call of [] \<Rightarrow> None | parent # _ \<Rightarrow> Some parent)
      else
        (case last (args call) of
           ArrowFunction (Block s _) \<Rightarrow> Some s
         | FunctionExpression s _ \<Rightarrow> Some s
         | _ \<Rightarrow> None))"

text \<open>The set of skipped block starts, in insertion order.\<close>

definition findSkippedScopes :: "SourceFile \<Rightarrow> nat list" where
  "findSkippedScopes file =
     foldl (\<lambda>skippedScopes call.
              case extractSkippedBlock call of
                None \<Rightarrow> skippedScopes
              | Some blockStart \<Rightarrow> set_add blockStart skippedScopes)
       [] (call_expressions file)"

fun inside_scope :: "nat list \<Rightarrow> nat list \<Rightarrow> bool" where
  "inside_scope [] skippedScopes = False"
| "inside_scope (b # outer) skippedScopes =
     (if b \<in> set skippedScopes then True else inside_scope outer skippedScopes)"

definition isInsideSkippedScope :: "CallSite \<Rightarrow> nat list \<Rightarrow> bool" where
  "isInsideSkippedScope call skippedScopes = inside_scope (blocks call) skippedScopes"

subsection \<open>extractTestCalls and analyzeTestFile\<close>

text \<open>The body of the second pass for one call expression: the entry pushed to \<open>calls\<close>,
  if any.\<close>

definition visit_call :: "string list \<Rightarrow> nat list \<Rightarrow> CallSite \<Rightarrow> TestCallInfo option" where
  "visit_call skipTagList skippedScopes call =
     (case parseTestCall call skipTagList of
        None \<Rightarrow> None
      | Some info \<Rightarrow>
          Some (if \<not> skipped info \<and> isInsideSkippedScope call skippedScopes
                then info\<lparr>skipped := True\<rparr> else info))"

definition extractTestCalls :: "DiscoveryConfig \<Rightarrow> SourceFile \<Rightarrow> TestCallInfo list" where
  "extractTestCalls config file =
     (let skippedScopes = findSkippedScopes file
      in List.map_filter (visit_call (skipTags config) skippedScopes) (call_expressions file))"

definition startsWith :: "string \<Rightarrow> string \<Rightarrow> bool" where
  "startsWith s p = (take (length p) s = p)"

text \<open>\<open>getRelativePath\<close> belongs to the path utilities of the package and is a parameter
  here.\<close>

definition analyzeTestFile ::
  "DiscoveryConfig \<Rightarrow> (string \<Rightarrow> string) \<Rightarrow> SourceFile \<Rightarrow> DiscoveredSpec option" where
  "analyzeTestFile config getRelativePath file =
     (let calls = extractTestCalls config file
      in if length calls = 0 then None
         else
           (let hasActiveTest = list_ex (\<lambda>call. \<not> skipped call \<and> \<not> isDescribe call) calls
            in if \<not> hasActiveTest then None
               else
                 (let allTags = foldl (\<lambda>acc tag. set_add tag acc) [] (concat (map tags calls));
                      caps = map (\<lambda>tag. drop (length (capabilityPrefix config)) tag)
                               (filter (\<lambda>tag. startsWith tag (capabilityPrefix config)) allTags)
                  in Some \<lparr>path = getRelativePath (filePath file),
                           capabilities = sort caps\<rparr>)))"

section \<open>The orchestrator with double-precision arithmetic\<close>

text \<open>
  The definitions above add durations as exact integers. The source adds JavaScript
  numbers, which are IEEE 754 doubles: every sum is rounded to 53 significant bits, ties to
  even. This section repeats the functions of the orchestrator that compute with durations,
  with that rounding written out. Durations remain integers: an integer of magnitude at
  most \<open>2^53\<close> is a double, the sum of two integer-valued doubles rounds to an
  integer-valued double, and a quotient rounds to a rational. The exponent range is taken
  as unbounded (no overflow to \<open>Infinity\<close>, no subnormal numbers). The comparator
  \<open>b.duration - a.duration\<close> has the sign of the exact difference, so sorting is as before.
\<close>

subsection \<open>Rounding to a double\<close>

text \<open>The number of binary digits of a positive integer.\<close>

function bitlen :: "int \<Rightarrow> nat" where
  "bitlen n = (if n \<le> 0 then 0 else Suc (bitlen (n div 2)))"
  by pat_completeness auto
termination
  by (relation "measure nat") auto

text \<open>\<open>q * 2^e\<close> for an integer exponent.\<close>

definition scale :: "rat \<Rightarrow> int \<Rightarrow> rat" where
  "scale q e = (if 0 \<le> e then q * 2 ^ nat e else q / 2 ^ nat (- e))"

text \<open>The nearest integer, a tie going to the even one.\<close>

definition round_even :: "rat \<Rightarrow> int" where
  "round_even m =
     (let f = \<lfloor>m\<rfloor>; r = m - of_int f
      in if r < 1 / 2 then f else if 1 / 2 < r then f + 1 else if even f then f else f + 1)"

text \<open>The double nearest to a rational: the exponent \<open>e\<close> is chosen so that the scaled
  magnitude lies in \<open>[2^52, 2^53)\<close>, and the scaled magnitude is rounded to an integer.\<close>

definition dbl_round :: "rat \<Rightarrow> rat" where
  "dbl_round q =
     (if q = 0 then 0
      else
        (let a = fst (quotient_of \<bar>q\<bar>); b = snd (quotient_of \<bar>q\<bar>);
             e0 = int (bitlen a) - int (bitlen b) - 53;
             e = (if 2 ^ 53 \<le> scale \<bar>q\<bar> (- e0) then e0 + 1 else e0)
         in sgn q * scale (of_int (round_even (scale \<bar>q\<bar> (- e)))) e))"

text \<open>The double nearest to an integer; integers up to \<open>2^53\<close> in magnitude are doubles.\<close>

definition round53 :: "int \<Rightarrow> int" where
  "round53 n = (if \<bar>n\<bar> \<le> 2 ^ 53 then n else \<lfloor>dbl_round (of_int n)\<rfloor>)"

text \<open>\<open>a + b\<close> on integer-valued doubles.\<close>

definition dadd :: "int \<Rightarrow> int \<Rightarrow> int" where
  "dadd a b = round53 (a + b)"

text \<open>\<open>a / d\<close> with the finite quotient rounded.\<close>

definition js_div_dbl :: "int \<Rightarrow> jsnum \<Rightarrow> jsnum" where
  "js_div_dbl a d = (case js_div a d of Fin q \<Rightarrow> Fin (dbl_round q) | x \<Rightarrow> x)"

subsection \<open>splitLargeGroups over doubles\<close>

text \<open>\<open>specs.reduce((sum, s) => sum + s.duration, 0)\<close>.\<close>

definition total_duration_dbl :: "SpecWithDuration list \<Rightarrow> int" where
  "total_duration_dbl sps = foldl (\<lambda>sum s. dadd sum (duration s)) 0 sps"

definition accumulate_dbl ::
  "jsnum \<Rightarrow> SpecWithDuration list list \<times> int \<Rightarrow> SpecWithDuration
   \<Rightarrow> SpecWithDuration list list \<times> int" where
  "accumulate_dbl targetPerSubGroup st spec =
     (let (subGroups, currentTotal) = st;
          (subGroups1, currentTotal1) =
             (if js_gt (dadd currentTotal (duration spec)) targetPerSubGroup
                 \<and> length (last subGroups) > 0
              then (subGroups @ [[]], 0)
              else (subGroups, currentTotal))
      in (butlast subGroups1 @ [last subGroups1 @ [spec]], dadd currentTotal1 (duration spec)))"

definition make_item_dbl :: "string \<Rightarrow> SpecWithDuration list \<Rightarrow> PackingItem" where
  "make_item_dbl cap sps =
     \<lparr>capability = Some cap, item_specs = map path sps, item_duration = total_duration_dbl sps\<rparr>"

definition split_group_dbl :: "int \<Rightarrow> string \<times> SpecWithDuration list \<Rightarrow> PackingItem list" where
  "split_group_dbl maxGD g =
     (let cap = fst g;
          sps = sort_desc duration (snd g);
          totalDuration = total_duration_dbl sps
      in if totalDuration > maxGD \<and> length sps > 1 then
           (let numSubGroups = Math_ceil (js_div_dbl totalDuration (Fin (of_int maxGD)));
                targetPerSubGroup = js_div_dbl totalDuration numSubGroups;
                subGroups = fst (foldl (accumulate_dbl targetPerSubGroup) ([[]], 0) sps)
            in map (make_item_dbl cap) subGroups)
         else [make_item_dbl cap sps])"

definition splitLargeGroups_dbl ::
  "(string \<times> SpecWithDuration list) list \<Rightarrow> int \<Rightarrow> PackingItem list" where
  "splitLargeGroups_dbl groups maxGD = concat (map (split_group_dbl maxGD) groups)"

subsection \<open>assignToShards over doubles\<close>

definition add_item_dbl :: "Bucket \<Rightarrow> PackingItem \<Rightarrow> Bucket" where
  "add_item_dbl b item =
     (let b1 = b\<lparr>bucket_specs := bucket_specs b @ item_specs item,
                 bucket_testTime := dadd (bucket_testTime b) (item_duration item)\<rparr>
      in case capability item of
           Some c \<Rightarrow> (if c \<noteq> [] then b1\<lparr>bucket_capabilities := set_add c (bucket_capabilities b1)\<rparr>
                      else b1\<lparr>hasStandardSpecs := True\<rparr>)
         | None \<Rightarrow> b1\<lparr>hasStandardSpecs := True\<rparr>)"

fun assign_loop_dbl :: "PackingItem list \<Rightarrow> Bucket list \<Rightarrow> error + Bucket list" where
  "assign_loop_dbl [] buckets = Inr buckets"
| "assign_loop_dbl (item # rest) buckets =
     (case lightest buckets of
        Inl e \<Rightarrow> Inl e
      | Inr i \<Rightarrow> assign_loop_dbl rest (buckets[i := add_item_dbl (buckets ! i) item]))"

definition assignToShards_dbl :: "PackingItem list \<Rightarrow> nat \<Rightarrow> error + Bucket list" where
  "assignToShards_dbl items numShards =
     (let allItems = sort_desc item_duration items;
          buckets = replicate numShards empty_bucket
      in assign_loop_dbl allItems buckets)"

subsection \<open>orchestrate over doubles\<close>

definition packing_items_dbl :: "SpecWithDuration list \<Rightarrow> int \<Rightarrow> PackingItem list" where
  "packing_items_dbl enriched maxGD =
     (let (groups, standard) = groupByCapability enriched;
          capabilityItems = splitLargeGroups_dbl groups maxGD;
          standardItems = map standard_item standard
      in capabilityItems @ standardItems)"

definition orchestrate_dbl ::
  "DiscoveredSpec list \<Rightarrow> nat \<Rightarrow> (string \<rightharpoonup> int) \<Rightarrow> OrchestrationConfig
   \<Rightarrow> error + OrchestrationResult" where
  "orchestrate_dbl sps numShards metrics config =
     (let enriched = enrichWithDuration sps metrics (defaultDuration config);
          items = packing_items_dbl enriched (maxGroupDuration config)
      in case assignToShards_dbl items numShards of
           Inl e \<Rightarrow> Inl e
         | Inr buckets \<Rightarrow>
             Inr \<lparr>shards = finalize buckets, totalTestTime = total_duration_dbl enriched\<rparr>)"

section \<open>Auxiliary notions used in the statements\<close>

text \<open>The subgroups built so far in the split loop: there is a current (last) subgroup, and
  every finished subgroup is non-empty.\<close>

definition sub_inv :: "'a list list \<Rightarrow> bool" where
  "sub_inv sgs \<longleftrightarrow> sgs \<noteq> [] \<and> (\<forall>g \<in> set (butlast sgs). g \<noteq> [])"

text \<open>Greedy accumulation in the words of the specification: go through the sorted members;
  start a new subgroup when adding the next member would exceed the target, unless the
  current subgroup is still empty.\<close>

fun spec_greedy ::
  "jsnum \<Rightarrow> SpecWithDuration list \<Rightarrow> SpecWithDuration list \<Rightarrow> SpecWithDuration list list" where
  "spec_greedy target cur [] = [cur]"
| "spec_greedy target cur (s # rest) =
     (if cur \<noteq> [] \<and> js_gt (sum_list (map duration cur) + duration s) target
      then cur # spec_greedy target [s] rest
      else spec_greedy target (cur @ [s]) rest)"

text \<open>The capability a spec is filed under: the first one, if any.\<close>

definition first_cap :: "'a DiscoveredSpec_scheme \<Rightarrow> string option" where
  "first_cap s = (case capabilities s of [] \<Rightarrow> None | c # _ \<Rightarrow> Some c)"

text \<open>Buckets that hold no spec have accumulated no time.\<close>

definition empty_zero :: "Bucket list \<Rightarrow> bool" where
  "empty_zero bs \<longleftrightarrow> (\<forall>b \<in> set bs. bucket_specs b = [] \<longrightarrow> bucket_testTime b = 0)"

text \<open>The split step in the words of the specification: sort the members by descending
  duration; if the total exceeds the threshold and there is more than one member, take
  \<open>numSubGroups = ceil(total / maxGroupDuration)\<close> and the target \<open>total / numSubGroups\<close>
  and accumulate greedily (\<open>spec_greedy\<close>), one packing item per subgroup; otherwise one
  packing item for the whole group.\<close>

definition spec_split_group :: "int \<Rightarrow> string \<times> SpecWithDuration list \<Rightarrow> PackingItem list" where
  "spec_split_group maxGD g =
     (let members = sort_desc duration (snd g);
          total = sum_list (map duration members)
      in if total > maxGD \<and> length members > 1 then
           (let numSubGroups = Math_ceil (js_div total (Fin (of_int maxGD)));
                target = js_div total numSubGroups
            in map (\<lambda>sub. \<lparr>capability = Some (fst g), item_specs = map path sub,
                            item_duration = sum_list (map duration sub)\<rparr>)
                 (spec_greedy target [] members))
         else [\<lparr>capability = Some (fst g), item_specs = map path members,
                 item_duration = total\<rparr>])"

text \<open>A spec reduced to its first capability, and a spec with one capability name removed.\<close>

definition keep_first :: "'a DiscoveredSpec_scheme \<Rightarrow> 'a DiscoveredSpec_scheme" where
  "keep_first s = s\<lparr>capabilities := take 1 (capabilities s)\<rparr>"

definition drop_capability :: "string \<Rightarrow> 'a DiscoveredSpec_scheme \<Rightarrow> 'a DiscoveredSpec_scheme" where
  "drop_capability c s = s\<lparr>capabilities := filter (\<lambda>x. x \<noteq> c) (capabilities s)\<rparr>"

text \<open>The first capability that a list of specs attaches to a path.\<close>

definition cap_of :: "'a DiscoveredSpec_scheme list \<Rightarrow> string \<Rightarrow> string option" where
  "cap_of sps p =
     (case map_of (map (\<lambda>s. (path s, first_cap s)) sps) p of
        Some fc \<Rightarrow> fc
      | None \<Rightarrow> None)"

section \<open>Lemmas about the orchestrator\<close>

lemma foldl_add_sum: "foldl (\<lambda>sum s. sum + f s) a xs = a + sum_list (map f xs)"
  for a :: int
  by (induction xs arbitrary: a) simp_all

lemma total_duration_sum: "total_duration sps = sum_list (map duration sps)"
  by (simp add: total_duration_def foldl_add_sum)

lemma mset_sort_desc [simp]: "mset (sort_desc f xs) = mset xs"
  by (simp add: sort_desc_def)

lemma set_sort_desc [simp]: "set (sort_desc f xs) = set xs"
  by (simp add: sort_desc_def)

lemma length_sort_desc [simp]: "length (sort_desc f xs) = length xs"
  by (simp add: sort_desc_def)

lemma sum_list_mset_cong: "mset xs = mset ys \<Longrightarrow> sum_list (map f xs) = sum_list (map f ys)"
  for f :: "'a \<Rightarrow> int"
proof -
  assume "mset xs = mset ys"
  then have "mset (map f xs) = mset (map f ys)" by simp
  then have "sum_mset (mset (map f xs)) = sum_mset (mset (map f ys))" by simp
  then show ?thesis by (simp only: sum_mset_sum_list)
qed

lemma total_duration_sort_desc [simp]: "total_duration (sort_desc f sps) = total_duration sps"
  unfolding total_duration_sum by (rule sum_list_mset_cong) simp

subsection \<open>The accumulation loop\<close>

lemma accumulate_inv:
  assumes "sub_inv sgs" and "accumulate t (sgs, cur) spec = (sgs', cur')"
  shows "sub_inv sgs' \<and> last sgs' \<noteq> [] \<and> concat sgs' = concat sgs @ [spec]"
proof (cases "js_gt (cur + duration spec) t \<and> length (last sgs) > 0")
  case True
  with assms(2) have s: "sgs' = sgs @ [[spec]]"
    by (simp add: accumulate_def)
  from assms(1) have "butlast sgs @ [last sgs] = sgs"
    by (simp add: sub_inv_def)
  then have "set sgs = set (butlast sgs) \<union> {last sgs}"
    by (metis set_append list.set(1) list.set(2))
  with assms(1) True have "\<forall>g \<in> set sgs. g \<noteq> []"
    by (auto simp: sub_inv_def)
  with s show ?thesis by (simp add: sub_inv_def)
next
  case False
  with assms(2) have s: "sgs' = butlast sgs @ [last sgs @ [spec]]"
    by (auto simp: accumulate_def)
  from assms(1) have "butlast sgs @ [last sgs] = sgs"
    by (simp add: sub_inv_def)
  then have "concat sgs = concat (butlast sgs @ [last sgs])"
    by simp
  then have "concat sgs = concat (butlast sgs) @ last sgs"
    by (simp only: concat_append concat.simps append_Nil2)
  with s assms(1) show ?thesis by (simp add: sub_inv_def)
qed

lemma accumulate_fold_inv:
  assumes "sub_inv sgs" and "foldl (accumulate t) (sgs, cur) sps = (sgs', cur')"
  shows "sub_inv sgs' \<and> (sps \<noteq> [] \<longrightarrow> last sgs' \<noteq> []) \<and> concat sgs' = concat sgs @ sps"
  using assms
proof (induction sps arbitrary: sgs cur)
  case Nil
  then show ?case by simp
next
  case (Cons s sps)
  obtain sgs1 cur1 where a: "accumulate t (sgs, cur) s = (sgs1, cur1)"
    by (cases "accumulate t (sgs, cur) s")
  from accumulate_inv[OF Cons.prems(1) a]
  have i1: "sub_inv sgs1" and l1: "last sgs1 \<noteq> []" and c1: "concat sgs1 = concat sgs @ [s]"
    by simp_all
  from Cons.prems(2) a have f: "foldl (accumulate t) (sgs1, cur1) sps = (sgs', cur')" by simp
  from Cons.IH[OF i1 f] have r: "sub_inv sgs'" "sps \<noteq> [] \<longrightarrow> last sgs' \<noteq> []"
    "concat sgs' = concat sgs1 @ sps" by simp_all
  have "last sgs' \<noteq> []"
  proof (cases sps)
    case Nil
    with f l1 show ?thesis by simp
  next
    case (Cons a list)
    with r(2) show ?thesis by simp
  qed
  with r c1 show ?case by simp
qed

subsection \<open>Greedy accumulation, as a recursion\<close>

lemma accumulate_step:
  assumes "sgs \<noteq> []"
  shows "accumulate t (sgs, sum_list (map duration (last sgs))) s =
     (if last sgs \<noteq> [] \<and> js_gt (sum_list (map duration (last sgs)) + duration s) t
      then (sgs @ [[s]], sum_list (map duration [s]))
      else (butlast sgs @ [last sgs @ [s]], sum_list (map duration (last sgs @ [s]))))"
  by (auto simp: accumulate_def)

lemma accumulate_fold_greedy:
  assumes "sgs \<noteq> []"
  shows "fst (foldl (accumulate t) (sgs, sum_list (map duration (last sgs))) sps) =
           butlast sgs @ spec_greedy t (last sgs) sps"
  using assms
proof (induction sps arbitrary: sgs)
  case Nil
  then show ?case by simp
next
  case (Cons s sps)
  show ?case
  proof (cases "last sgs \<noteq> [] \<and> js_gt (sum_list (map duration (last sgs)) + duration s) t")
    case True
    have ne: "sgs @ [[s]] \<noteq> []" by simp
    have "fst (foldl (accumulate t) (sgs, sum_list (map duration (last sgs))) (s # sps)) =
          fst (foldl (accumulate t) (sgs @ [[s]], sum_list (map duration (last (sgs @ [[s]])))) sps)"
      using True by (simp add: accumulate_step[OF Cons.prems])
    also have "\<dots> = butlast (sgs @ [[s]]) @ spec_greedy t (last (sgs @ [[s]])) sps"
      by (rule Cons.IH[OF ne])
    also have "\<dots> = butlast sgs @ spec_greedy t (last sgs) (s # sps)"
      using True Cons.prems by simp
    finally show ?thesis .
  next
    case False
    let ?sgs1 = "butlast sgs @ [last sgs @ [s]]"
    have ne: "?sgs1 \<noteq> []" by simp
    have "accumulate t (sgs, sum_list (map duration (last sgs))) s =
          (?sgs1, sum_list (map duration (last sgs @ [s])))"
      unfolding accumulate_step[OF Cons.prems] using False by (rule if_not_P)
    then have "fst (foldl (accumulate t) (sgs, sum_list (map duration (last sgs))) (s # sps)) =
          fst (foldl (accumulate t) (?sgs1, sum_list (map duration (last ?sgs1))) sps)"
      by simp
    also have "\<dots> = butlast ?sgs1 @ spec_greedy t (last ?sgs1) sps"
      by (rule Cons.IH[OF ne])
    also have "\<dots> = butlast sgs @ spec_greedy t (last sgs) (s # sps)"
      using False by auto
    finally show ?thesis .
  qed
qed

lemma subgroups_greedy:
  "fst (foldl (accumulate t) ([[]], 0) sps) = spec_greedy t [] sps"
  using accumulate_fold_greedy[of "[[]]" t sps] by simp

lemma subgroups_inv:
  assumes "sps \<noteq> []"
  shows "(\<forall>g \<in> set (fst (foldl (accumulate t) ([[]], 0) sps)). g \<noteq> [])
         \<and> concat (fst (foldl (accumulate t) ([[]], 0) sps)) = sps"
proof -
  obtain sgs' cur' where f: "foldl (accumulate t) ([[]], 0) sps = (sgs', cur')"
    by (cases "foldl (accumulate t) ([[]], 0) sps")
  have "sub_inv [[]]" by (simp add: sub_inv_def)
  from accumulate_fold_inv[OF this f] assms
  have i: "sub_inv sgs'" and l: "last sgs' \<noteq> []" and c: "concat sgs' = sps" by simp_all
  from i have "butlast sgs' @ [last sgs'] = sgs'" by (simp add: sub_inv_def)
  then have "set sgs' = set (butlast sgs') \<union> {last sgs'}"
    by (metis set_append list.set(1) list.set(2))
  with i l have "\<forall>g \<in> set sgs'. g \<noteq> []" by (auto simp: sub_inv_def)
  with c f show ?thesis by simp
qed

subsection \<open>Grouping\<close>

lemma group_step_eq:
  "group_step st s =
     (case first_cap s of
        Some cap \<Rightarrow> (groups_push cap s (fst st), snd st)
      | None \<Rightarrow> (fst st, snd st @ [s]))"
  by (simp add: group_step_def first_cap_def split: list.split)

lemma groupByCapability_snoc:
  "groupByCapability (sps @ [s]) = group_step (groupByCapability sps) s"
  by (simp add: groupByCapability_def)

lemma map_of_groups_push:
  "map_of (groups_push c s g) =
     (map_of g)(c \<mapsto> (case map_of g c of None \<Rightarrow> [s] | Some ss \<Rightarrow> ss @ [s]))"
  by (induction c s g rule: groups_push.induct) (auto simp: fun_eq_iff)

lemma keys_groups_push:
  "map fst (groups_push c s g) = (if c \<in> set (map fst g) then map fst g else map fst g @ [c])"
  by (induction c s g rule: groups_push.induct) auto

lemma distinct_groups_push:
  "distinct (map fst g) \<Longrightarrow> distinct (map fst (groups_push c s g))"
  by (simp add: keys_groups_push)

lemma mset_groups_push:
  "mset (concat (map snd (groups_push c s g))) = mset (concat (map snd g)) + {#s#}"
  by (induction c s g rule: groups_push.induct) auto

lemma groups_standard:
  "snd (groupByCapability sps) = filter (\<lambda>s. first_cap s = None) sps"
proof (induction sps rule: rev_induct)
  case Nil
  show ?case by (simp add: groupByCapability_def)
next
  case (snoc s sps)
  then show ?case
    by (simp add: groupByCapability_snoc group_step_eq split: option.split)
qed

lemma groups_distinct: "distinct (map fst (fst (groupByCapability sps)))"
proof (induction sps rule: rev_induct)
  case Nil
  show ?case by (simp add: groupByCapability_def)
next
  case (snoc s sps)
  then show ?case
    by (simp add: groupByCapability_snoc group_step_eq distinct_groups_push split: option.split)
qed

lemma groups_map_of:
  "map_of (fst (groupByCapability sps)) k =
     (if filter (\<lambda>s. first_cap s = Some k) sps = [] then None
      else Some (filter (\<lambda>s. first_cap s = Some k) sps))"
proof (induction sps arbitrary: k rule: rev_induct)
  case Nil
  show ?case by (simp add: groupByCapability_def)
next
  case (snoc s sps)
  show ?case
  proof (cases "first_cap s")
    case None
    with snoc show ?thesis
      by (simp add: groupByCapability_snoc group_step_eq)
  next
    case (Some c)
    with snoc show ?thesis
      by (simp add: groupByCapability_snoc group_step_eq map_of_groups_push)
  qed
qed

lemma groups_member:
  "(k, ss) \<in> set (fst (groupByCapability sps)) \<longleftrightarrow>
     ss \<noteq> [] \<and> ss = filter (\<lambda>s. first_cap s = Some k) sps"
proof -
  have "(k, ss) \<in> set (fst (groupByCapability sps)) \<longleftrightarrow>
        map_of (fst (groupByCapability sps)) k = Some ss"
    using groups_distinct[of sps] by simp
  then show ?thesis
    by (auto simp: groups_map_of)
qed

lemma groups_mset:
  "mset (concat (map snd (fst (groupByCapability sps)))) + mset (snd (groupByCapability sps))
     = mset sps"
proof (induction sps rule: rev_induct)
  case Nil
  show ?case by (simp add: groupByCapability_def)
next
  case (snoc s sps)
  then show ?case
    by (simp add: groupByCapability_snoc group_step_eq mset_groups_push split: option.split)
qed

subsection \<open>Splitting\<close>

lemma item_specs_make_item [simp]: "item_specs (make_item cap sps) = map path sps"
  by (simp add: make_item_def)

lemma item_duration_make_item [simp]:
  "item_duration (make_item cap sps) = sum_list (map duration sps)"
  by (simp add: make_item_def total_duration_sum)

lemma capability_make_item [simp]: "capability (make_item cap sps) = Some cap"
  by (simp add: make_item_def)

lemma split_group_cases:
  "split_group maxGD (cap, ss) =
     (if sum_list (map duration ss) > maxGD \<and> length ss > 1
      then map (make_item cap)
             (spec_greedy
                (js_div (sum_list (map duration ss))
                   (Math_ceil (js_div (sum_list (map duration ss)) (Fin (of_int maxGD)))))
                [] (sort_desc duration ss))
      else [make_item cap (sort_desc duration ss)])"
  by (simp add: split_group_def Let_def subgroups_greedy total_duration_sum[symmetric])

lemma split_group_parts:
  assumes "ss \<noteq> []"
  shows "\<exists>sgs. split_group maxGD (cap, ss) = map (make_item cap) sgs
            \<and> (\<forall>g \<in> set sgs. g \<noteq> []) \<and> concat sgs = sort_desc duration ss"
proof (cases "total_duration (sort_desc duration ss) > maxGD \<and> length (sort_desc duration ss) > 1")
  case True
  define t where "t = js_div (total_duration (sort_desc duration ss))
      (Math_ceil (js_div (total_duration (sort_desc duration ss)) (Fin (of_int maxGD))))"
  from assms have ne: "sort_desc duration ss \<noteq> []"
    by (metis length_sort_desc length_0_conv)
  from True have "split_group maxGD (cap, ss) =
      map (make_item cap) (fst (foldl (accumulate t) ([[]], 0) (sort_desc duration ss)))"
    by (simp add: split_group_def Let_def t_def)
  with subgroups_inv[OF ne, of t] show ?thesis by blast
next
  case False
  from assms have ne: "sort_desc duration ss \<noteq> []"
    by (metis length_sort_desc length_0_conv)
  from False have "split_group maxGD (cap, ss) = map (make_item cap) [sort_desc duration ss]"
    by (auto simp add: split_group_def Let_def)
  with ne show ?thesis
    by (intro exI[of _ "[sort_desc duration ss]"]) simp
qed

subsection \<open>Choosing the lightest bucket\<close>

lemma lightest_fold:
  fixes t :: "nat \<Rightarrow> int"
  defines "m \<equiv> \<lambda>k. foldl (\<lambda>m i. if t i < t m then i else m) 0 [1 ..< Suc k]"
  shows "m k \<le> k \<and> (\<forall>j \<le> k. t (m k) \<le> t j) \<and> (\<forall>j < m k. t (m k) < t j)"
proof (induction k)
  case 0
  show ?case by (simp add: m_def)
next
  case (Suc k)
  have step: "m (Suc k) = (if t (Suc k) < t (m k) then Suc k else m k)"
    by (simp add: m_def)
  show ?case
  proof (cases "t (Suc k) < t (m k)")
    case True
    with step have e: "m (Suc k) = Suc k" by simp
    have "\<forall>j \<le> Suc k. t (Suc k) \<le> t j"
    proof (intro allI impI)
      fix j assume "j \<le> Suc k"
      then consider "j = Suc k" | "j \<le> k" by linarith
      then show "t (Suc k) \<le> t j"
      proof cases
        case 1 then show ?thesis by simp
      next
        case 2 with Suc True show ?thesis by force
      qed
    qed
    moreover have "\<forall>j < Suc k. t (Suc k) < t j"
    proof (intro allI impI)
      fix j assume "j < Suc k"
      then have "j \<le> k" by simp
      with Suc have "t (m k) \<le> t j" by blast
      with True show "t (Suc k) < t j" by simp
    qed
    ultimately show ?thesis using e by simp
  next
    case False
    with step have e: "m (Suc k) = m k" by simp
    have "\<forall>j \<le> Suc k. t (m k) \<le> t j"
    proof (intro allI impI)
      fix j assume "j \<le> Suc k"
      then consider "j = Suc k" | "j \<le> k" by linarith
      then show "t (m k) \<le> t j"
      proof cases
        case 1 with False show ?thesis by simp
      next
        case 2 with Suc show ?thesis by blast
      qed
    qed
    with Suc e show ?thesis by simp
  qed
qed

lemma lightest_props:
  assumes "buckets \<noteq> []"
  shows "\<exists>i. lightest buckets = Inr i \<and> i < length buckets
           \<and> (\<forall>j < length buckets. bucket_testTime (buckets ! i) \<le> bucket_testTime (buckets ! j))
           \<and> (\<forall>j < i. bucket_testTime (buckets ! i) < bucket_testTime (buckets ! j))"
proof -
  from assms obtain k where k: "length buckets = Suc k"
    by (cases buckets) auto
  define i where
    "i = foldl (\<lambda>m i. if bucket_testTime (buckets ! i) < bucket_testTime (buckets ! m)
                        then i else m) 0 [1 ..< Suc k]"
  from assms k have l: "lightest buckets = Inr i"
    by (simp add: lightest_def i_def)
  from lightest_fold[of "\<lambda>j. bucket_testTime (buckets ! j)" k]
  have "i \<le> k" and "\<forall>j \<le> k. bucket_testTime (buckets ! i) \<le> bucket_testTime (buckets ! j)"
    and "\<forall>j < i. bucket_testTime (buckets ! i) < bucket_testTime (buckets ! j)"
    unfolding i_def by blast+
  with l k show ?thesis by (auto simp: less_Suc_eq_le)
qed

lemma lightest_empty: "lightest [] = Inl TypeError"
  by (simp add: lightest_def)

subsection \<open>Adding an item to a bucket\<close>

lemma bucket_specs_add_item [simp]:
  "bucket_specs (add_item b item) = bucket_specs b @ item_specs item"
  by (simp add: add_item_def Let_def split: option.split)

lemma bucket_testTime_add_item [simp]:
  "bucket_testTime (add_item b item) = bucket_testTime b + item_duration item"
  by (simp add: add_item_def Let_def split: option.split)

lemma bucket_capabilities_add_item:
  "bucket_capabilities (add_item b item) =
     (case capability item of
        Some c \<Rightarrow> if c \<noteq> [] then set_add c (bucket_capabilities b) else bucket_capabilities b
      | None \<Rightarrow> bucket_capabilities b)"
  by (simp add: add_item_def Let_def split: option.split)

lemma hasStandardSpecs_add_item:
  "hasStandardSpecs (add_item b item) =
     (case capability item of
        Some c \<Rightarrow> if c \<noteq> [] then hasStandardSpecs b else True
      | None \<Rightarrow> True)"
  by (simp add: add_item_def Let_def split: option.split)

lemma set_set_add [simp]: "set (set_add x xs) = insert x (set xs)"
  by (auto simp: set_add_def)

lemma distinct_set_add [simp]: "distinct (set_add x xs) = distinct xs"
  by (auto simp: set_add_def)

subsection \<open>List update and sums\<close>

lemma sum_list_map_update:
  fixes f :: "'a \<Rightarrow> int"
  assumes "i < length xs"
  shows "sum_list (map f (xs[i := y])) = sum_list (map f xs) - f (xs ! i) + f y"
proof -
  have "sum_list (map f (xs[i := y])) = sum_list (map f (take i xs @ y # drop (Suc i) xs))"
    using assms by (simp only: upd_conv_take_nth_drop)
  moreover have "sum_list (map f xs) = sum_list (map f (take i xs @ xs ! i # drop (Suc i) xs))"
    using assms by (simp only: id_take_nth_drop[symmetric])
  ultimately show ?thesis by simp
qed

lemma mset_concat_map_update:
  assumes "i < length xs"
  shows "mset (concat (map f (xs[i := y]))) + mset (f (xs ! i)) = mset (concat (map f xs)) + mset (f y)"
proof -
  have "mset (concat (map f (xs[i := y]))) = mset (concat (map f (take i xs @ y # drop (Suc i) xs)))"
    using assms by (simp only: upd_conv_take_nth_drop)
  moreover have "mset (concat (map f xs)) = mset (concat (map f (take i xs @ xs ! i # drop (Suc i) xs)))"
    using assms by (simp only: id_take_nth_drop[symmetric])
  ultimately show ?thesis by simp
qed

subsection \<open>The packing loop\<close>

lemma assign_loop_total:
  assumes "buckets \<noteq> []"
  shows "\<exists>bs'. assign_loop items buckets = Inr bs' \<and> length bs' = length buckets"
  using assms
proof (induction items arbitrary: buckets)
  case Nil
  then show ?case by simp
next
  case (Cons item rest)
  from lightest_props[OF Cons.prems] obtain i where i: "lightest buckets = Inr i" by blast
  have "buckets[i := add_item (buckets ! i) item] \<noteq> []"
    using Cons.prems by simp
  from Cons.IH[OF this] i show ?case by simp
qed

lemma assign_loop_no_items: "assign_loop [] buckets = Inr buckets"
  by simp

lemma assign_loop_empty: "items \<noteq> [] \<Longrightarrow> assign_loop items [] = Inl TypeError"
  by (cases items) (simp_all add: lightest_empty)

lemma assign_loop_invariant:
  assumes "assign_loop items buckets = Inr bs'"
    and "P buckets"
    and "\<And>bs i item. P bs \<Longrightarrow> i < length bs \<Longrightarrow> item \<in> set items
            \<Longrightarrow> P (bs[i := add_item (bs ! i) item])"
  shows "P bs'"
  using assms
proof (induction items arbitrary: buckets)
  case Nil
  then show ?case by simp
next
  case (Cons item rest)
  show ?case
  proof (cases "buckets = []")
    case True
    with Cons.prems(1) show ?thesis by (simp add: lightest_empty)
  next
    case False
    from lightest_props[OF False] obtain i where i: "lightest buckets = Inr i" "i < length buckets"
      by blast
    from Cons.prems(1) i
    have r: "assign_loop rest (buckets[i := add_item (buckets ! i) item]) = Inr bs'" by simp
    have p: "P (buckets[i := add_item (buckets ! i) item])"
      using Cons.prems(2) i(2) by (rule Cons.prems(3)) simp
    show ?thesis
      by (rule Cons.IH[OF r p]) (rule Cons.prems(3), simp_all)
  qed
qed

lemma assign_loop_sums:
  assumes "assign_loop items buckets = Inr bs'"
  shows "mset (concat (map bucket_specs bs')) =
           mset (concat (map bucket_specs buckets)) + mset (concat (map item_specs items))
       \<and> sum_list (map bucket_testTime bs') =
           sum_list (map bucket_testTime buckets) + sum_list (map item_duration items)"
  using assms
proof (induction items arbitrary: buckets)
  case Nil
  then show ?case by simp
next
  case (Cons item rest)
  show ?case
  proof (cases "buckets = []")
    case True
    with Cons.prems(1) show ?thesis by (simp add: lightest_empty)
  next
    case False
    from lightest_props[OF False] obtain i where i: "lightest buckets = Inr i" "i < length buckets"
      by blast
    let ?bs1 = "buckets[i := add_item (buckets ! i) item]"
    from Cons.prems(1) i have r: "assign_loop rest ?bs1 = Inr bs'" by simp
    from mset_concat_map_update[OF i(2), of bucket_specs "add_item (buckets ! i) item"]
    have m: "mset (concat (map bucket_specs ?bs1)) =
             mset (concat (map bucket_specs buckets)) + mset (item_specs item)"
      by simp
    from sum_list_map_update[OF i(2), of bucket_testTime "add_item (buckets ! i) item"]
    have s: "sum_list (map bucket_testTime ?bs1) =
             sum_list (map bucket_testTime buckets) + item_duration item"
      by simp
    from Cons.IH[OF r] m s show ?thesis by simp
  qed
qed

subsection \<open>Finalisation\<close>

lemma map_snd_of_enumerate: "map (\<lambda>ib. g (snd ib)) (enumerate n xs) = map g xs"
  by (induction xs arbitrary: n) simp_all

lemma map_fst_of_enumerate:
  "map (\<lambda>ib. Suc (fst ib)) (enumerate n xs) = [Suc n ..< Suc (n + length xs)]"
proof (induction xs arbitrary: n)
  case Nil
  show ?case by simp
next
  case (Cons x xs)
  have "[Suc n ..< Suc (n + length (x # xs))] = Suc n # [Suc (Suc n) ..< Suc (Suc n + length xs)]"
    by (simp add: upt_rec)
  with Cons[of "Suc n"] show ?case by simp
qed

lemma map_shard_finalize:
  "map shard (finalize buckets) =
     [1 ..< Suc (length (filter (\<lambda>b. length (bucket_specs b) > 0) buckets))]"
  using map_fst_of_enumerate[of 0 "filter (\<lambda>b. length (bucket_specs b) > 0) buckets"]
  by (simp add: finalize_def to_shard_def Let_def comp_def)

lemma map_specs_finalize:
  "map specs (finalize buckets) =
     map bucket_specs (filter (\<lambda>b. length (bucket_specs b) > 0) buckets)"
  by (simp add: finalize_def to_shard_def Let_def comp_def map_snd_of_enumerate)

lemma map_testTime_finalize:
  "map testTime (finalize buckets) =
     map bucket_testTime (filter (\<lambda>b. length (bucket_specs b) > 0) buckets)"
  by (simp add: finalize_def to_shard_def Let_def comp_def map_snd_of_enumerate)

lemma finalize_members:
  "sh \<in> set (finalize buckets) \<Longrightarrow>
     \<exists>b \<in> set buckets. bucket_specs b \<noteq> [] \<and> specs sh = bucket_specs b
        \<and> testTime sh = bucket_testTime b
        \<and> shard_capabilities sh = sort (bucket_capabilities b)
        \<and> fixtureCount sh = length (bucket_capabilities b) + (if hasStandardSpecs b then 1 else 0)"
proof -
  assume "sh \<in> set (finalize buckets)"
  then obtain ib where ib: "ib \<in> set (enumerate 0 (filter (\<lambda>b. length (bucket_specs b) > 0) buckets))"
    and sh: "sh = to_shard ib"
    by (auto simp: finalize_def)
  from ib have "snd ib \<in> set (map snd (enumerate 0 (filter (\<lambda>b. length (bucket_specs b) > 0) buckets)))"
    by (metis imageI list.set_map)
  then have "snd ib \<in> set (filter (\<lambda>b. length (bucket_specs b) > 0) buckets)"
    by (simp only: map_snd_enumerate)
  with sh show ?thesis
    by (intro bexI[of _ "snd ib"]) (simp_all add: to_shard_def Let_def)
qed

lemma finalize_bucket:
  assumes "b \<in> set buckets" and "bucket_specs b \<noteq> []"
  shows "\<exists>sh \<in> set (finalize buckets). specs sh = bucket_specs b"
proof -
  from assms have "bucket_specs b \<in> set (map bucket_specs (filter (\<lambda>b. length (bucket_specs b) > 0) buckets))"
    by simp
  then have "bucket_specs b \<in> set (map specs (finalize buckets))"
    by (simp only: map_specs_finalize)
  then show ?thesis by auto
qed

lemma concat_filter_nonempty:
  "concat (map f (filter (\<lambda>b. length (f b) > 0) xs)) = concat (map f xs)"
  by (induction xs) simp_all

lemma sum_list_filter_zero:
  fixes g :: "'a \<Rightarrow> int"
  assumes "\<forall>b \<in> set xs. \<not> P b \<longrightarrow> g b = 0"
  shows "sum_list (map g (filter P xs)) = sum_list (map g xs)"
  using assms by (induction xs) simp_all

subsection \<open>The packing items\<close>

lemma sum_list_int_concat:
  fixes f :: "'a \<Rightarrow> int"
  shows "sum_list (map f (concat xss)) = sum_list (map (\<lambda>xs. sum_list (map f xs)) xss)"
  by (induction xss) simp_all

lemma mset_concat_map_cong:
  assumes "mset xs = mset ys"
  shows "mset (concat (map f xs)) = mset (concat (map f ys))"
proof -
  from assms have "mset (map (\<lambda>x. mset (f x)) xs) = mset (map (\<lambda>x. mset (f x)) ys)"
    by simp
  then have "sum_mset (mset (map (\<lambda>x. mset (f x)) xs)) = sum_mset (mset (map (\<lambda>x. mset (f x)) ys))"
    by simp
  then have "sum_list (map (\<lambda>x. mset (f x)) xs) = sum_list (map (\<lambda>x. mset (f x)) ys)"
    by (simp only: sum_mset_sum_list)
  then show ?thesis
    by (simp add: mset_concat comp_def)
qed

lemma split_group_specs:
  assumes "ss \<noteq> []"
  shows "concat (map item_specs (split_group maxGD (cap, ss))) = map path (sort_desc duration ss)"
proof -
  from split_group_parts[OF assms, of maxGD cap] obtain sgs where
    s: "split_group maxGD (cap, ss) = map (make_item cap) sgs" and c: "concat sgs = sort_desc duration ss"
    by blast
  have "concat (map item_specs (map (make_item cap) sgs)) = map path (concat sgs)"
    by (simp add: comp_def map_concat)
  with s c show ?thesis by simp
qed

lemma split_group_durations:
  assumes "ss \<noteq> []"
  shows "sum_list (map item_duration (split_group maxGD (cap, ss))) = sum_list (map duration ss)"
proof -
  from split_group_parts[OF assms, of maxGD cap] obtain sgs where
    s: "split_group maxGD (cap, ss) = map (make_item cap) sgs" and c: "concat sgs = sort_desc duration ss"
    by blast
  have "sum_list (map item_duration (map (make_item cap) sgs)) = sum_list (map duration (concat sgs))"
    by (simp add: comp_def sum_list_int_concat)
  also have "\<dots> = sum_list (map duration ss)"
    unfolding c by (rule sum_list_mset_cong) simp
  finally show ?thesis using s by simp
qed

lemma split_group_nonempty:
  assumes "ss \<noteq> []" and "item \<in> set (split_group maxGD (cap, ss))"
  shows "item_specs item \<noteq> [] \<and> capability item = Some cap"
proof -
  from split_group_parts[OF assms(1), of maxGD cap] obtain sgs where
    s: "split_group maxGD (cap, ss) = map (make_item cap) sgs" and n: "\<forall>g \<in> set sgs. g \<noteq> []"
    by blast
  from assms(2) s obtain g where "g \<in> set sgs" "item = make_item cap g" by auto
  with n show ?thesis by simp
qed

lemma splitLargeGroups_specs:
  assumes "\<forall>g \<in> set groups. snd g \<noteq> []"
  shows "mset (concat (map item_specs (splitLargeGroups groups maxGD))) =
           mset (map path (concat (map snd groups)))"
  using assms
proof (induction groups)
  case Nil
  show ?case by (simp add: splitLargeGroups_def)
next
  case (Cons g groups)
  obtain cap ss where g: "g = (cap, ss)" by (cases g)
  with Cons.prems have ne: "ss \<noteq> []" by simp
  have "mset (map path (sort_desc duration ss)) = mset (map path ss)"
    by simp
  with Cons g split_group_specs[OF ne, of maxGD cap] show ?case
    by (simp add: splitLargeGroups_def)
qed

lemma splitLargeGroups_durations:
  assumes "\<forall>g \<in> set groups. snd g \<noteq> []"
  shows "sum_list (map item_duration (splitLargeGroups groups maxGD)) =
           sum_list (map duration (concat (map snd groups)))"
  using assms
proof (induction groups)
  case Nil
  show ?case by (simp add: splitLargeGroups_def)
next
  case (Cons g groups)
  obtain cap ss where g: "g = (cap, ss)" by (cases g)
  with Cons.prems have ne: "ss \<noteq> []" by simp
  with Cons g split_group_durations[OF ne, of maxGD cap] show ?case
    by (simp add: splitLargeGroups_def)
qed

lemma splitLargeGroups_member:
  assumes "\<forall>g \<in> set groups. snd g \<noteq> []" and "item \<in> set (splitLargeGroups groups maxGD)"
  shows "item_specs item \<noteq> [] \<and> (\<exists>g \<in> set groups. capability item = Some (fst g))"
proof -
  from assms(2) obtain g where g: "g \<in> set groups" "item \<in> set (split_group maxGD g)"
    by (auto simp: splitLargeGroups_def)
  obtain cap ss where p: "g = (cap, ss)" by (cases g)
  with g assms(1) have "ss \<noteq> []" by auto
  from split_group_nonempty[OF this, of item maxGD cap] g p
  have "item_specs item \<noteq> [] \<and> capability item = Some (fst g)" by simp
  with g(1) show ?thesis by blast
qed

lemma groups_nonempty: "\<forall>g \<in> set (fst (groupByCapability sps)). snd g \<noteq> []"
proof
  fix g assume "g \<in> set (fst (groupByCapability sps))"
  then have "(fst g, snd g) \<in> set (fst (groupByCapability sps))" by simp
  with groups_member[of "fst g" "snd g" sps] show "snd g \<noteq> []" by blast
qed

lemma packing_items_eq:
  "packing_items enriched maxGD =
     splitLargeGroups (fst (groupByCapability enriched)) maxGD
       @ map standard_item (snd (groupByCapability enriched))"
  by (simp add: packing_items_def split: prod.split)

lemma packing_items_specs:
  "mset (concat (map item_specs (packing_items enriched maxGD))) = mset (map path enriched)"
proof -
  have "concat (map item_specs (map standard_item xs)) = map path xs" for xs :: "SpecWithDuration list"
    by (induction xs) (simp_all add: standard_item_def)
  then have "mset (concat (map item_specs (packing_items enriched maxGD))) =
        mset (map path (concat (map snd (fst (groupByCapability enriched)))))
          + mset (map path (snd (groupByCapability enriched)))"
    by (simp add: packing_items_eq splitLargeGroups_specs[OF groups_nonempty])
  also have "\<dots> = image_mset path (mset (concat (map snd (fst (groupByCapability enriched))))
                       + mset (snd (groupByCapability enriched)))"
    by simp
  also have "\<dots> = mset (map path enriched)"
    by (simp only: groups_mset mset_map)
  finally show ?thesis .
qed

lemma packing_items_durations:
  "sum_list (map item_duration (packing_items enriched maxGD)) = sum_list (map duration enriched)"
proof -
  have "sum_list (map item_duration (map standard_item xs)) = sum_list (map duration xs)"
    for xs :: "SpecWithDuration list"
    by (simp add: standard_item_def comp_def)
  then have "sum_list (map item_duration (packing_items enriched maxGD)) =
        sum_list (map duration (concat (map snd (fst (groupByCapability enriched)))
                                 @ snd (groupByCapability enriched)))"
    by (simp add: packing_items_eq splitLargeGroups_durations[OF groups_nonempty])
  also have "\<dots> = sum_list (map duration enriched)"
    by (rule sum_list_mset_cong) (simp add: groups_mset)
  finally show ?thesis .
qed

lemma packing_items_nonempty:
  "item \<in> set (packing_items enriched maxGD) \<Longrightarrow> item_specs item \<noteq> []"
  using splitLargeGroups_member[OF groups_nonempty, of item enriched maxGD]
  by (auto simp: packing_items_eq standard_item_def)

lemma map_path_enrich [simp]: "map path (enrichWithDuration sps metrics dflt) = map path sps"
  by (simp add: enrichWithDuration_def comp_def)

lemma map_capabilities_enrich [simp]:
  "map capabilities (enrichWithDuration sps metrics dflt) = map capabilities sps"
  by (simp add: enrichWithDuration_def comp_def)

subsection \<open>Packing into a positive number of shards\<close>


lemma assignToShards_total:
  assumes "0 < numShards"
  shows "\<exists>bs. assignToShards items numShards = Inr bs \<and> length bs = numShards"
proof -
  from assms have "replicate numShards empty_bucket \<noteq> []" by simp
  from assign_loop_total[OF this, of "sort_desc item_duration items"]
  show ?thesis by (simp add: assignToShards_def)
qed

lemma assignToShards_sums:
  assumes "assignToShards items numShards = Inr bs"
  shows "mset (concat (map bucket_specs bs)) = mset (concat (map item_specs items))"
    and "sum_list (map bucket_testTime bs) = sum_list (map item_duration items)"
proof -
  from assms have a: "assign_loop (sort_desc item_duration items) (replicate numShards empty_bucket) = Inr bs"
    by (simp add: assignToShards_def)
  have z1: "concat (map bucket_specs (replicate numShards empty_bucket)) = []"
    by (simp add: empty_bucket_def)
  have z2: "sum_list (map bucket_testTime (replicate numShards empty_bucket)) = 0"
    by (simp add: empty_bucket_def sum_list_replicate)
  have m: "mset (concat (map item_specs (sort_desc item_duration items))) = mset (concat (map item_specs items))"
    by (rule mset_concat_map_cong) simp
  have s: "sum_list (map item_duration (sort_desc item_duration items)) = sum_list (map item_duration items)"
    by (rule sum_list_mset_cong) simp
  from assign_loop_sums[OF a] z1 z2 m s
  show "mset (concat (map bucket_specs bs)) = mset (concat (map item_specs items))"
    and "sum_list (map bucket_testTime bs) = sum_list (map item_duration items)"
    by simp_all
qed

lemma assignToShards_empty_zero:
  assumes "assignToShards items numShards = Inr bs"
    and "\<forall>item \<in> set items. item_specs item \<noteq> []"
  shows "empty_zero bs"
proof -
  from assms have a: "assign_loop (sort_desc item_duration items) (replicate numShards empty_bucket) = Inr bs"
    by (simp add: assignToShards_def)
  show ?thesis
  proof (rule assign_loop_invariant[OF a])
    show "empty_zero (replicate numShards empty_bucket)"
      by (simp add: empty_zero_def empty_bucket_def)
  next
    fix bs' i item
    assume p: "empty_zero bs'" and "i < length bs'" and "item \<in> set (sort_desc item_duration items)"
    with assms(2) have ne: "item_specs item \<noteq> []" by simp
    have "set (bs'[i := add_item (bs' ! i) item]) \<subseteq> insert (add_item (bs' ! i) item) (set bs')"
      by (rule set_update_subset_insert)
    with p ne show "empty_zero (bs'[i := add_item (bs' ! i) item])"
      by (auto simp: empty_zero_def)
  qed
qed

subsection \<open>Orchestration returns for a positive shard count\<close>

lemma orchestrate_Inr:
  assumes "0 < numShards"
  shows "\<exists>bs. assignToShards (packing_items (enrichWithDuration sps metrics (defaultDuration config))
                   (maxGroupDuration config)) numShards = Inr bs
            \<and> length bs = numShards
            \<and> orchestrate sps numShards metrics config =
                Inr \<lparr>shards = finalize bs,
                     totalTestTime = total_duration
                        (enrichWithDuration sps metrics (defaultDuration config))\<rparr>"
proof -
  from assignToShards_total[OF assms] obtain bs where
    "assignToShards (packing_items (enrichWithDuration sps metrics (defaultDuration config))
                   (maxGroupDuration config)) numShards = Inr bs" "length bs = numShards"
    by blast
  then show ?thesis by (simp add: orchestrate_def Let_def)
qed

subsection \<open>Descending order\<close>

lemma sorted_sort_desc:
  "sorted_wrt (\<lambda>a b. f b \<le> f a) (sort_desc f xs)"
proof -
  have "sorted (map (\<lambda>x. - f x) (sort_key (\<lambda>x. - f x) xs))"
    by (rule sorted_sort_key)
  then show ?thesis
    by (simp add: sort_desc_def sorted_map)
qed

lemma make_item_eq:
  "make_item cap sps =
     \<lparr>capability = Some cap, item_specs = map path sps, item_duration = sum_list (map duration sps)\<rparr>"
  by (simp add: make_item_def total_duration_sum)

lemma split_group_spec: "split_group maxGD = spec_split_group maxGD"
  by (rule ext) (simp add: split_group_def spec_split_group_def Let_def subgroups_greedy
        total_duration_sum make_item_eq)

subsection \<open>Where an item lands\<close>

lemma assign_loop_grows:
  assumes "assign_loop items buckets = Inr bs'"
  shows "length bs' = length buckets
       \<and> (\<forall>i < length buckets. set (bucket_specs (buckets ! i)) \<subseteq> set (bucket_specs (bs' ! i)))"
proof (rule assign_loop_invariant[OF assms])
  show "length buckets = length buckets
       \<and> (\<forall>i < length buckets. set (bucket_specs (buckets ! i)) \<subseteq> set (bucket_specs (buckets ! i)))"
    by simp
next
  fix bs :: "Bucket list" and i item
  assume "length bs = length buckets
       \<and> (\<forall>i < length buckets. set (bucket_specs (buckets ! i)) \<subseteq> set (bucket_specs (bs ! i)))"
    and "i < length bs"
  then show "length (bs[i := add_item (bs ! i) item]) = length buckets
       \<and> (\<forall>k < length buckets. set (bucket_specs (buckets ! k))
              \<subseteq> set (bucket_specs (bs[i := add_item (bs ! i) item] ! k)))"
    by (auto simp: nth_list_update)
qed

lemma assign_loop_item_placed:
  assumes "assign_loop items buckets = Inr bs'" and "item \<in> set items"
  shows "\<exists>b \<in> set bs'. set (item_specs item) \<subseteq> set (bucket_specs b)"
  using assms
proof (induction items arbitrary: buckets)
  case Nil
  then show ?case by simp
next
  case (Cons it rest)
  show ?case
  proof (cases "buckets = []")
    case True
    with Cons.prems(1) show ?thesis by (simp add: lightest_empty)
  next
    case False
    from lightest_props[OF False] obtain i where i: "lightest buckets = Inr i" "i < length buckets"
      by blast
    let ?bs1 = "buckets[i := add_item (buckets ! i) it]"
    from Cons.prems(1) i have r: "assign_loop rest ?bs1 = Inr bs'" by simp
    show ?thesis
    proof (cases "item = it")
      case True
      from assign_loop_grows[OF r] i(2)
      have l: "i < length bs'" by simp
      from assign_loop_grows[OF r] i(2)
      have "set (bucket_specs (?bs1 ! i)) \<subseteq> set (bucket_specs (bs' ! i))"
        by (metis length_list_update)
      moreover have "bucket_specs (?bs1 ! i) = bucket_specs (buckets ! i) @ item_specs it"
        using i(2) by simp
      ultimately have "set (item_specs item) \<subseteq> set (bucket_specs (bs' ! i))"
        using True by simp
      with l show ?thesis by (intro bexI[of _ "bs' ! i"]) simp_all
    next
      case False
      with Cons.prems(2) have "item \<in> set rest" by simp
      from Cons.IH[OF r this] show ?thesis .
    qed
  qed
qed

lemma enrich_member:
  assumes "s \<in> set sps"
  shows "\<exists>e \<in> set (enrichWithDuration sps metrics dflt).
            path e = path s \<and> capabilities e = capabilities s"
  using assms by (auto simp: enrichWithDuration_def)

lemma enrich_member_rev:
  assumes "e \<in> set (enrichWithDuration sps metrics dflt)"
  shows "\<exists>s \<in> set sps. path e = path s \<and> capabilities e = capabilities s"
  using assms by (auto simp: enrichWithDuration_def)

lemma first_cap_cong: "capabilities e = capabilities s \<Longrightarrow> first_cap e = first_cap s"
  by (simp add: first_cap_def)

subsection \<open>Only the first capability matters\<close>

lemma keep_first_simps [simp]:
  "path (keep_first s) = path s"
  "first_cap (keep_first s) = first_cap s"
  "capabilities (keep_first s) = take 1 (capabilities s)"
  by (simp_all add: keep_first_def first_cap_def split: list.split)

lemma duration_keep_first [simp]: "duration (keep_first s) = duration s"
  by (simp add: keep_first_def)

lemma enrich_keep_first:
  "enrichWithDuration (map keep_first sps) metrics dflt =
     map keep_first (enrichWithDuration sps metrics dflt)"
  by (simp add: enrichWithDuration_def keep_first_def)

lemma insort_key_map:
  "insort_key f (g x) (map g xs) = map g (insort_key (\<lambda>y. f (g y)) x xs)"
  by (induction xs) simp_all

lemma sort_key_map: "sort_key f (map g xs) = map g (sort_key (\<lambda>y. f (g y)) xs)"
  by (induction xs) (simp_all add: insort_key_map)

lemma sort_desc_keep_first:
  "sort_desc duration (map keep_first ss) = map keep_first (sort_desc duration ss)"
  by (simp add: sort_desc_def sort_key_map)

lemma groups_push_keep_first:
  "groups_push c (keep_first s) (map (\<lambda>g. (fst g, map keep_first (snd g))) gs) =
     map (\<lambda>g. (fst g, map keep_first (snd g))) (groups_push c s gs)"
  by (induction c s gs rule: groups_push.induct) simp_all

lemma groupByCapability_keep_first:
  "groupByCapability (map keep_first e) =
     (map (\<lambda>g. (fst g, map keep_first (snd g))) (fst (groupByCapability e)),
      map keep_first (snd (groupByCapability e)))"
proof (induction e rule: rev_induct)
  case Nil
  show ?case by (simp add: groupByCapability_def)
next
  case (snoc s e)
  have "groupByCapability (map keep_first (e @ [s])) =
        group_step (groupByCapability (map keep_first e)) (keep_first s)"
    by (simp add: groupByCapability_snoc)
  with snoc show ?case
    by (simp add: groupByCapability_snoc group_step_eq groups_push_keep_first split: option.split)
qed

lemma spec_greedy_keep_first:
  "spec_greedy t (map keep_first cur) (map keep_first rest) =
     map (map keep_first) (spec_greedy t cur rest)"
proof (induction t cur rest rule: spec_greedy.induct)
  case (1 target cur)
  show ?case by simp
next
  case (2 target cur s rest)
  have d: "map duration (map keep_first cur) = map duration cur" by simp
  show ?case
  proof (cases "cur \<noteq> [] \<and> js_gt (sum_list (map duration cur) + duration s) target")
    case True
    with 2(1)[OF True] show ?thesis
      by (simp add: comp_def)
  next
    case False
    with 2(2)[OF False] show ?thesis
      by (auto simp add: comp_def)
  qed
qed

lemma make_item_keep_first: "make_item cap (map keep_first g) = make_item cap g"
  by (simp add: make_item_eq comp_def)

lemma split_group_keep_first:
  "split_group maxGD (cap, map keep_first ss) = split_group maxGD (cap, ss)"
proof -
  have d: "map duration (map keep_first ss) = map duration ss" by simp
  have g: "spec_greedy t [] (map keep_first xs) = map (map keep_first) (spec_greedy t [] xs)" for t xs
    using spec_greedy_keep_first[of t "[]" xs] by simp
  have m: "map (make_item cap) (map (map keep_first) xss) = map (make_item cap) xss" for xss
    by (simp add: make_item_keep_first)
  show ?thesis
    unfolding split_group_cases d sort_desc_keep_first g m make_item_keep_first length_map ..
qed

lemma splitLargeGroups_keep_first:
  "splitLargeGroups (map (\<lambda>g. (fst g, map keep_first (snd g))) gs) maxGD = splitLargeGroups gs maxGD"
proof -
  have "split_group maxGD (fst g, map keep_first (snd g)) = split_group maxGD g" for g
    using split_group_keep_first[of maxGD "fst g" "snd g"] by simp
  then show ?thesis
    by (simp add: splitLargeGroups_def comp_def)
qed

lemma packing_items_keep_first:
  "packing_items (map keep_first e) maxGD = packing_items e maxGD"
proof -
  have "standard_item (keep_first s) = standard_item s" for s
    by (simp add: standard_item_def)
  then show ?thesis
    by (simp add: packing_items_eq groupByCapability_keep_first splitLargeGroups_keep_first)
qed

lemma orchestrate_keep_first:
  "orchestrate (map keep_first sps) numShards metrics config =
     orchestrate sps numShards metrics config"
proof -
  have td: "total_duration (map keep_first e) = total_duration e" for e :: "SpecWithDuration list"
    by (simp add: total_duration_sum comp_def)
  show ?thesis
    by (simp add: orchestrate_def Let_def enrich_keep_first packing_items_keep_first td
          split: sum.split)
qed

lemma keep_first_drop_capability:
  assumes "first_cap s \<noteq> Some c"
  shows "keep_first (drop_capability c s) = keep_first s"
  using assms by (cases "capabilities s") (simp_all add: keep_first_def drop_capability_def first_cap_def)

lemma orchestrate_drop_capability:
  assumes "\<forall>s \<in> set sps. first_cap s \<noteq> Some c"
  shows "orchestrate (map (drop_capability c) sps) numShards metrics config =
           orchestrate sps numShards metrics config"
proof -
  from assms have "map keep_first (map (drop_capability c) sps) = map keep_first sps"
    by (simp add: keep_first_drop_capability)
  then have "orchestrate (map keep_first (map (drop_capability c) sps)) numShards metrics config =
             orchestrate (map keep_first sps) numShards metrics config"
    by (rule arg_cong)
  then show ?thesis by (simp only: orchestrate_keep_first)
qed

subsection \<open>Capabilities recorded on a bucket\<close>

lemma assignToShards_capabilities:
  assumes "assignToShards items numShards = Inr bs" and "b \<in> set bs"
  shows "set (bucket_capabilities b) \<subseteq> {c. \<exists>item \<in> set items. capability item = Some c}
       \<and> distinct (bucket_capabilities b)"
proof -
  let ?P = "\<lambda>bs :: Bucket list. \<forall>b \<in> set bs.
      set (bucket_capabilities b) \<subseteq> {c. \<exists>item \<in> set items. capability item = Some c}
       \<and> distinct (bucket_capabilities b)"
  from assms(1) have a: "assign_loop (sort_desc item_duration items) (replicate numShards empty_bucket) = Inr bs"
    by (simp add: assignToShards_def)
  have "?P bs"
  proof (rule assign_loop_invariant[OF a])
    show "?P (replicate numShards empty_bucket)"
      by (simp add: empty_bucket_def)
  next
    fix bs' :: "Bucket list" and i item
    assume p: "?P bs'" and i: "i < length bs'" and "item \<in> set (sort_desc item_duration items)"
    then have it: "item \<in> set items" by simp
    from p i have old: "set (bucket_capabilities (bs' ! i)) \<subseteq> {c. \<exists>item \<in> set items. capability item = Some c}"
      "distinct (bucket_capabilities (bs' ! i))" by simp_all
    have new: "set (bucket_capabilities (add_item (bs' ! i) item)) \<subseteq> {c. \<exists>item \<in> set items. capability item = Some c}
       \<and> distinct (bucket_capabilities (add_item (bs' ! i) item))"
      using old it by (auto simp: bucket_capabilities_add_item split: option.split)
    have "set (bs'[i := add_item (bs' ! i) item]) \<subseteq> insert (add_item (bs' ! i) item) (set bs')"
      by (rule set_update_subset_insert)
    with p new show "?P (bs'[i := add_item (bs' ! i) item])"
      by blast
  qed
  with assms(2) show ?thesis by blast
qed

lemma packing_items_capability:
  assumes "item \<in> set (packing_items (enrichWithDuration sps metrics dflt) maxGD)"
    and "capability item = Some c"
  shows "\<exists>s \<in> set sps. first_cap s = Some c"
proof -
  let ?e = "enrichWithDuration sps metrics dflt"
  from assms have "item \<in> set (splitLargeGroups (fst (groupByCapability ?e)) maxGD)"
    by (auto simp: packing_items_eq standard_item_def)
  from splitLargeGroups_member[OF groups_nonempty this] assms(2)
  obtain g where g: "g \<in> set (fst (groupByCapability ?e))" "fst g = c" by auto
  then have "(c, snd g) \<in> set (fst (groupByCapability ?e))" by auto
  with groups_member[of c "snd g" ?e] have "filter (\<lambda>s. first_cap s = Some c) ?e \<noteq> []"
    by metis
  then obtain e where e: "e \<in> set ?e" "first_cap e = Some c"
    by (metis (mono_tags, lifting) filter_False)
  from enrich_member_rev[OF e(1)] obtain s where "s \<in> set sps" "capabilities e = capabilities s"
    by blast
  with e(2) first_cap_cong[of e s] show ?thesis by auto
qed

subsection \<open>What a bucket records\<close>

lemma ex_item_specs:
  assumes "xs \<noteq> []" and "\<forall>p \<in> set xs. F p = k"
  shows "(\<exists>p \<in> set xs. G (F p)) \<longleftrightarrow> G k"
proof -
  from assms(1) obtain q where "q \<in> set xs" by (cases xs) auto
  with assms(2) show ?thesis by auto
qed

lemma add_item_law:
  fixes F :: "string \<Rightarrow> string option"
  assumes caps: "set (bucket_capabilities b) = {c. c \<noteq> [] \<and> (\<exists>p \<in> set (bucket_specs b). F p = Some c)}"
    and std: "hasStandardSpecs b \<longleftrightarrow> (\<exists>p \<in> set (bucket_specs b). F p = None \<or> F p = Some [])"
    and ne: "item_specs item \<noteq> []"
    and cap: "\<forall>p \<in> set (item_specs item). F p = capability item"
  shows "set (bucket_capabilities (add_item b item)) =
           {c. c \<noteq> [] \<and> (\<exists>p \<in> set (bucket_specs (add_item b item)). F p = Some c)}
       \<and> (hasStandardSpecs (add_item b item) \<longleftrightarrow>
            (\<exists>p \<in> set (bucket_specs (add_item b item)). F p = None \<or> F p = Some []))"
proof -
  have split: "(\<exists>p \<in> set (bucket_specs (add_item b item)). G (F p)) \<longleftrightarrow>
        (\<exists>p \<in> set (bucket_specs b). G (F p)) \<or> G (capability item)" for G
    using ex_item_specs[OF ne cap, of G] by (simp add: bex_Un)
  have s1: "(\<exists>p \<in> set (bucket_specs (add_item b item)). F p = Some c) \<longleftrightarrow>
        (\<exists>p \<in> set (bucket_specs b). F p = Some c) \<or> capability item = Some c" for c
    by (rule split[of "\<lambda>x. x = Some c"])
  have s2: "(\<exists>p \<in> set (bucket_specs (add_item b item)). F p = None \<or> F p = Some []) \<longleftrightarrow>
        (\<exists>p \<in> set (bucket_specs b). F p = None \<or> F p = Some [])
          \<or> (capability item = None \<or> capability item = Some [])"
    by (rule split[of "\<lambda>x. x = None \<or> x = Some []"])
  have c: "set (bucket_capabilities (add_item b item)) =
      set (bucket_capabilities b) \<union> {c. c \<noteq> [] \<and> capability item = Some c}"
    by (cases "capability item") (auto simp: bucket_capabilities_add_item)
  have h: "hasStandardSpecs (add_item b item) \<longleftrightarrow>
        hasStandardSpecs b \<or> (capability item = None \<or> capability item = Some [])"
    by (cases "capability item") (auto simp: hasStandardSpecs_add_item)
  have "set (bucket_capabilities (add_item b item)) =
           {c. c \<noteq> [] \<and> (\<exists>p \<in> set (bucket_specs (add_item b item)). F p = Some c)}"
  proof -
    have "set (bucket_capabilities b) \<union> {c. c \<noteq> [] \<and> capability item = Some c} =
          {c. c \<noteq> [] \<and> ((\<exists>p \<in> set (bucket_specs b). F p = Some c) \<or> capability item = Some c)}"
      unfolding caps by (rule set_eqI) (simp add: conj_disj_distribL)
    then show ?thesis
      by (simp only: c s1)
  qed
  moreover have "hasStandardSpecs (add_item b item) \<longleftrightarrow>
            (\<exists>p \<in> set (bucket_specs (add_item b item)). F p = None \<or> F p = Some [])"
    unfolding h std s2 ..
  ultimately show ?thesis ..
qed

lemma bucket_law:
  fixes F :: "string \<Rightarrow> string option"
  assumes "assignToShards items numShards = Inr bs"
    and "\<forall>item \<in> set items. item_specs item \<noteq> []
            \<and> (\<forall>p \<in> set (item_specs item). F p = capability item)"
    and "b \<in> set bs"
  shows "set (bucket_capabilities b) = {c. c \<noteq> [] \<and> (\<exists>p \<in> set (bucket_specs b). F p = Some c)}
       \<and> (hasStandardSpecs b \<longleftrightarrow> (\<exists>p \<in> set (bucket_specs b). F p = None \<or> F p = Some []))"
proof -
  let ?Q = "\<lambda>b. set (bucket_capabilities b) = {c. c \<noteq> [] \<and> (\<exists>p \<in> set (bucket_specs b). F p = Some c)}
       \<and> (hasStandardSpecs b \<longleftrightarrow> (\<exists>p \<in> set (bucket_specs b). F p = None \<or> F p = Some []))"
  from assms(1) have a: "assign_loop (sort_desc item_duration items) (replicate numShards empty_bucket) = Inr bs"
    by (simp add: assignToShards_def)
  have "\<forall>b \<in> set bs. ?Q b"
  proof (rule assign_loop_invariant[OF a])
    have e: "?Q empty_bucket"
      by (simp add: empty_bucket_def)
    show "\<forall>b \<in> set (replicate numShards empty_bucket). ?Q b"
    proof
      fix b assume "b \<in> set (replicate numShards empty_bucket)"
      then have "b = empty_bucket" by (simp only: in_set_replicate)
      with e show "?Q b" by (simp only:)
    qed
  next
    fix bs' :: "Bucket list" and i item
    assume p: "\<forall>b \<in> set bs'. ?Q b" and i: "i < length bs'"
      and mem: "item \<in> set (sort_desc item_duration items)"
    from mem have "item \<in> set items" by simp
    from bspec[OF assms(2) this]
    have it: "item_specs item \<noteq> []" "\<forall>p \<in> set (item_specs item). F p = capability item"
      by (rule conjunct1, rule conjunct2)
    have q: "?Q (bs' ! i)"
      by (rule bspec[OF p nth_mem[OF i]])
    have new: "?Q (add_item (bs' ! i) item)"
      by (rule add_item_law[OF q[THEN conjunct1] q[THEN conjunct2] it])
    show "\<forall>b \<in> set (bs'[i := add_item (bs' ! i) item]). ?Q b"
    proof
      fix b assume "b \<in> set (bs'[i := add_item (bs' ! i) item])"
      from subsetD[OF set_update_subset_insert this]
      have "b = add_item (bs' ! i) item \<or> b \<in> set bs'"
        by (simp only: insert_iff)
      then show "?Q b"
      proof
        assume "b = add_item (bs' ! i) item"
        with new show ?thesis by (simp only:)
      next
        assume "b \<in> set bs'"
        with p show ?thesis by (rule bspec)
      qed
    qed
  qed
  then show ?thesis using assms(3) by (rule bspec)
qed


lemma cap_of_path:
  assumes "distinct (map path sps)" and "s \<in> set sps"
  shows "cap_of sps (path s) = first_cap s"
proof -
  have "map fst (map (\<lambda>s. (path s, first_cap s)) sps) = map path sps"
    by (simp add: comp_def)
  with assms(1) have d: "distinct (map fst (map (\<lambda>s. (path s, first_cap s)) sps))"
    by (simp only:)
  from assms(2) have "(path s, first_cap s) \<in> set (map (\<lambda>s. (path s, first_cap s)) sps)"
    by (rule imageI[of s "set sps" "\<lambda>s. (path s, first_cap s)", unfolded set_map[symmetric]])
  from map_of_is_SomeI[OF d this] show ?thesis
    by (simp add: cap_of_def)
qed

lemma first_cap_None: "first_cap s = None \<longleftrightarrow> capabilities s = []"
  by (simp add: first_cap_def split: list.split)

lemma packing_items_cap_of:
  assumes d: "distinct (map path e)"
    and item: "item \<in> set (packing_items e maxGD)"
    and p: "p \<in> set (item_specs item)"
  shows "cap_of e p = capability item"
proof -
  from item consider
      (cap) "item \<in> set (splitLargeGroups (fst (groupByCapability e)) maxGD)"
    | (std) "item \<in> set (map standard_item (snd (groupByCapability e)))"
    unfolding packing_items_eq set_append by blast
  then show ?thesis
  proof cases
    case cap
    then obtain g where g: "g \<in> set (fst (groupByCapability e))" "item \<in> set (split_group maxGD g)"
      unfolding splitLargeGroups_def set_concat set_map by blast
    obtain k ss where gk: "g = (k, ss)" by (cases g)
    with g(1) groups_member[of k ss e] have ss: "ss \<noteq> []" "ss = filter (\<lambda>s. first_cap s = Some k) e"
      by blast+
    from split_group_parts[OF ss(1), of maxGD k] obtain sgs where
      sg: "split_group maxGD (k, ss) = map (make_item k) sgs" "concat sgs = sort_desc duration ss"
      by blast
    from g(2) gk sg(1) obtain sub where sub: "sub \<in> set sgs" "item = make_item k sub"
      by auto
    from sub(1) have "set sub \<subseteq> set (concat sgs)" by auto
    with sg(2) have "set sub \<subseteq> set ss" by simp
    moreover from p sub(2) obtain s where s: "s \<in> set sub" "p = path s" by auto
    ultimately have "s \<in> set ss" by blast
    then have "s \<in> set e" "first_cap s = Some k"
      unfolding ss(2) by simp_all
    with cap_of_path[OF d, of s] s(2) sub(2) show ?thesis by simp
  next
    case std
    then obtain s where s: "s \<in> set (snd (groupByCapability e))" "item = standard_item s"
      by auto
    from s(1) have "s \<in> set e" "first_cap s = None"
      unfolding groups_standard by simp_all
    moreover from p s(2) have "p = path s" by (simp add: standard_item_def)
    ultimately show ?thesis
      using cap_of_path[OF d, of s] s(2) by (simp add: standard_item_def)
  qed
qed


lemma cap_of_enrich: "cap_of (enrichWithDuration sps metrics dflt) = cap_of sps"
proof -
  have "map (\<lambda>s. (path s, first_cap s)) (enrichWithDuration sps metrics dflt) =
        map (\<lambda>s. (path s, first_cap s)) sps"
    by (simp add: enrichWithDuration_def first_cap_def)
  then show ?thesis
    by (simp add: cap_of_def fun_eq_iff)
qed

lemma fixtureCount_law:
  assumes d: "distinct (map path sps)"
    and ne: "\<forall>s \<in> set sps. first_cap s \<noteq> Some []"
    and r: "orchestrate sps numShards metrics config = Inr r"
    and sh: "sh \<in> set (shards r)"
  shows "set (shard_capabilities sh) =
           {c. \<exists>s \<in> set sps. path s \<in> set (specs sh) \<and> first_cap s = Some c}
       \<and> sorted (shard_capabilities sh) \<and> distinct (shard_capabilities sh)
       \<and> fixtureCount sh =
           card {c. \<exists>s \<in> set sps. path s \<in> set (specs sh) \<and> first_cap s = Some c}
           + (if \<exists>s \<in> set sps. path s \<in> set (specs sh) \<and> capabilities s = [] then 1 else 0)"
proof -
  let ?e = "enrichWithDuration sps metrics (defaultDuration config)"
  let ?items = "packing_items ?e (maxGroupDuration config)"
  let ?C = "{c. \<exists>s \<in> set sps. path s \<in> set (specs sh) \<and> first_cap s = Some c}"
  from r obtain bs where a: "assignToShards ?items numShards = Inr bs"
    and s: "shards r = finalize bs"
    by (auto simp: orchestrate_def Let_def split: sum.splits)
  from sh s finalize_members[of sh bs] obtain b where b: "b \<in> set bs"
    "specs sh = bucket_specs b"
    "shard_capabilities sh = sort (bucket_capabilities b)"
    "fixtureCount sh = length (bucket_capabilities b) + (if hasStandardSpecs b then 1 else 0)"
    by auto
  from d have de: "distinct (map path ?e)" by simp
  have items: "\<forall>item \<in> set ?items. item_specs item \<noteq> []
            \<and> (\<forall>p \<in> set (item_specs item). cap_of sps p = capability item)"
  proof (intro ballI conjI)
    fix item assume i: "item \<in> set ?items"
    then show "item_specs item \<noteq> []" by (rule packing_items_nonempty)
    fix p assume "p \<in> set (item_specs item)"
    from packing_items_cap_of[OF de i this] show "cap_of sps p = capability item"
      by (simp only: cap_of_enrich)
  qed
  note law = bucket_law[OF a items b(1)]
  have "mset (concat (map bucket_specs bs)) = mset (map path sps)"
    using assignToShards_sums(1)[OF a] packing_items_specs[of ?e "maxGroupDuration config"]
    by simp
  then have "set (concat (map bucket_specs bs)) = set (map path sps)"
    by (rule mset_eq_setD)
  with b(1) have known: "set (bucket_specs b) \<subseteq> path ` set sps" by auto
  have caps: "set (bucket_capabilities b) = ?C"
  proof (rule set_eqI)
    fix c
    show "c \<in> set (bucket_capabilities b) \<longleftrightarrow> c \<in> ?C"
    proof
      assume "c \<in> set (bucket_capabilities b)"
      with law obtain p where p: "p \<in> set (bucket_specs b)" "cap_of sps p = Some c" by blast
      with known obtain s0 where s0: "s0 \<in> set sps" "p = path s0" by blast
      with cap_of_path[OF d s0(1)] p b(2) show "c \<in> ?C" by auto
    next
      assume "c \<in> ?C"
      then obtain s0 where s0: "s0 \<in> set sps" "path s0 \<in> set (specs sh)" "first_cap s0 = Some c"
        by blast
      with ne have "c \<noteq> []" by auto
      moreover from cap_of_path[OF d s0(1)] s0(3) have "cap_of sps (path s0) = Some c" by simp
      ultimately show "c \<in> set (bucket_capabilities b)"
        using law s0(2) b(2) by auto
    qed
  qed
  have std: "hasStandardSpecs b \<longleftrightarrow> (\<exists>s \<in> set sps. path s \<in> set (specs sh) \<and> capabilities s = [])"
  proof
    assume "hasStandardSpecs b"
    with law obtain p where p: "p \<in> set (bucket_specs b)" "cap_of sps p = None \<or> cap_of sps p = Some []"
      by blast
    with known obtain s0 where s0: "s0 \<in> set sps" "p = path s0" by blast
    with cap_of_path[OF d s0(1)] p(2) ne have "first_cap s0 = None" by auto
    with s0 p(1) b(2) show "\<exists>s \<in> set sps. path s \<in> set (specs sh) \<and> capabilities s = []"
      by (auto simp: first_cap_None)
  next
    assume "\<exists>s \<in> set sps. path s \<in> set (specs sh) \<and> capabilities s = []"
    then obtain s0 where s0: "s0 \<in> set sps" "path s0 \<in> set (specs sh)" "capabilities s0 = []"
      by blast
    with cap_of_path[OF d s0(1)] have "cap_of sps (path s0) = None"
      by (simp add: first_cap_None)
    with law s0(2) b(2) show "hasStandardSpecs b" by auto
  qed
  from a b(1) have dist: "distinct (bucket_capabilities b)"
    using assignToShards_capabilities by blast
  then have "length (bucket_capabilities b) = card ?C"
    unfolding caps[symmetric] by (simp add: distinct_card)
  with b(3,4) caps std dist show ?thesis by simp
qed

section \<open>Lemmas about the discovery analyzer\<close>

lemma set_fold_set_add:
  "set (foldl (\<lambda>acc x. set_add x acc) acc xs) = set acc \<union> set xs"
  by (induction xs arbitrary: acc) auto

lemma distinct_fold_set_add:
  "distinct acc \<Longrightarrow> distinct (foldl (\<lambda>acc x. set_add x acc) acc xs)"
  by (induction xs arbitrary: acc) auto

lemma set_skipped_fold:
  "set (foldl (\<lambda>skippedScopes call.
              case extractSkippedBlock call of
                None \<Rightarrow> skippedScopes
              | Some blockStart \<Rightarrow> set_add blockStart skippedScopes) acc cs) =
     set acc \<union> {b. \<exists>call \<in> set cs. extractSkippedBlock call = Some b}"
  by (induction cs arbitrary: acc) (auto split: option.splits)

lemma set_findSkippedScopes:
  "set (findSkippedScopes file) =
     {b. \<exists>call \<in> set (call_expressions file). extractSkippedBlock call = Some b}"
  by (simp add: findSkippedScopes_def set_skipped_fold)

lemma inside_scope_iff:
  "inside_scope anc skippedScopes \<longleftrightarrow> (\<exists>b \<in> set anc. b \<in> set skippedScopes)"
  by (induction anc) auto

lemma visit_call_inside:
  assumes "parseTestCall call skipTagList = Some info"
    and "\<exists>b \<in> set (blocks call). b \<in> set skippedScopes"
  shows "visit_call skipTagList skippedScopes call = Some (info\<lparr>skipped := True\<rparr>)"
  using assms by (simp add: visit_call_def isInsideSkippedScope_def inside_scope_iff)

lemma visit_call_tags:
  "map_option tags (visit_call skipTagList skippedScopes call) =
     map_option tags (parseTestCall call skipTagList)"
  by (simp add: visit_call_def split: option.split)

lemma visit_call_isDescribe:
  "map_option isDescribe (visit_call skipTagList skippedScopes call) =
     map_option isDescribe (parseTestCall call skipTagList)"
  by (simp add: visit_call_def split: option.split)

lemma marker_marks_parent:
  assumes "expr marker = ''test.fixme'' \<or> expr marker = ''test.skip''"
    and "args marker = []" and "blocks marker = parent # outer"
  shows "extractSkippedBlock marker = Some parent"
  using assms by (auto simp: extractSkippedBlock_def)

subsection \<open>Tags and capabilities of a file\<close>

lemma map_filter_visit_tags:
  "map tags (List.map_filter (visit_call skipTagList skippedScopes) cs) =
     map tags (List.map_filter (\<lambda>call. parseTestCall call skipTagList) cs)"
proof (induction cs)
  case Nil
  show ?case by (simp add: List.map_filter_simps)
next
  case (Cons c cs)
  then show ?case
    by (cases "parseTestCall c skipTagList") (simp_all add: List.map_filter_simps visit_call_def)
qed

lemma extractTestCalls_tags:
  "set (concat (map tags (extractTestCalls config file))) =
     {tag. \<exists>call \<in> set (call_expressions file). \<exists>info.
             parseTestCall call (skipTags config) = Some info \<and> tag \<in> set (tags info)}"
proof -
  have "set (concat (map tags (List.map_filter f cs))) =
        {tag. \<exists>call \<in> set cs. \<exists>info. f call = Some info \<and> tag \<in> set (tags info)}"
    for f :: "CallSite \<Rightarrow> TestCallInfo option" and cs
    by (induction cs) (auto split: option.splits)
  then show ?thesis
    by (simp add: extractTestCalls_def map_filter_visit_tags)
qed

lemma startsWith_split: "startsWith s p \<Longrightarrow> s = p @ drop (length p) s"
  by (metis append_take_drop_id startsWith_def)

lemma strip_prefix_inj:
  "inj_on (drop (length p)) {s. startsWith s p}"
proof (rule inj_onI)
  fix s t
  assume "s \<in> {s. startsWith s p}" "t \<in> {s. startsWith s p}" "drop (length p) s = drop (length p) t"
  then show "s = t"
    using startsWith_split[of s p] startsWith_split[of t p] by simp
qed

lemma sort_distinct_eq: "distinct xs \<Longrightarrow> sort xs = sorted_list_of_set (set xs)"
  by (simp add: sorted_list_of_set_sort_remdups distinct_remdups_id)

lemma analyzeTestFile_Some:
  assumes "analyzeTestFile config getRelativePath file = Some spec"
  shows "path spec = getRelativePath (filePath file)"
    and "capabilities spec =
           sort (map (drop (length (capabilityPrefix config)))
              (filter (\<lambda>tag. startsWith tag (capabilityPrefix config))
                 (foldl (\<lambda>acc tag. set_add tag acc) []
                    (concat (map tags (extractTestCalls config file))))))"
    and "list_ex (\<lambda>call. \<not> skipped call \<and> \<not> isDescribe call) (extractTestCalls config file)"
  using assms by (auto simp: analyzeTestFile_def Let_def split: if_splits)

section \<open>Lemmas about the orchestrator over doubles\<close>

subsection \<open>Exact additions\<close>

lemma dadd_exact:
  assumes "0 \<le> a" and "0 \<le> b" and "a + b \<le> 2 ^ 53"
  shows "dadd a b = a + b"
  using assms by (simp add: dadd_def round53_def)

lemma sum_list_map_nonneg:
  fixes f :: "'a \<Rightarrow> int"
  shows "\<forall>x \<in> set xs. 0 \<le> f x \<Longrightarrow> 0 \<le> sum_list (map f xs)"
  by (induction xs) simp_all

lemma fold_dadd_exact:
  fixes f :: "'a \<Rightarrow> int"
  assumes "0 \<le> a" and "\<forall>x \<in> set xs. 0 \<le> f x" and "a + sum_list (map f xs) \<le> 2 ^ 53"
  shows "foldl (\<lambda>sum x. dadd sum (f x)) a xs = a + sum_list (map f xs)"
  using assms
proof (induction xs arbitrary: a)
  case Nil
  show ?case by simp
next
  case (Cons x xs)
  from Cons.prems have x: "0 \<le> f x" and rest: "\<forall>y \<in> set xs. 0 \<le> f y" by simp_all
  from rest have r0: "0 \<le> sum_list (map f xs)" by (rule sum_list_map_nonneg)
  with Cons.prems(3) have "a + f x \<le> 2 ^ 53" by simp
  with Cons.prems(1) x have e: "dadd a (f x) = a + f x" by (rule dadd_exact)
  have "foldl (\<lambda>sum x. dadd sum (f x)) (a + f x) xs = (a + f x) + sum_list (map f xs)"
  proof (rule Cons.IH)
    show "0 \<le> a + f x" using Cons.prems(1) x by simp
    show "\<forall>y \<in> set xs. 0 \<le> f y" by (rule rest)
    show "a + f x + sum_list (map f xs) \<le> 2 ^ 53" using Cons.prems(3) by simp
  qed
  with e show ?case by simp
qed

lemma total_duration_dbl_exact:
  assumes "\<forall>s \<in> set sps. 0 \<le> duration s" and "sum_list (map duration sps) \<le> 2 ^ 53"
  shows "total_duration_dbl sps = sum_list (map duration sps)"
  using fold_dadd_exact[of 0 sps duration] assms by (simp add: total_duration_dbl_def)

lemma elem_le_sum_list:
  fixes xs :: "int list"
  assumes "\<forall>x \<in> set xs. 0 \<le> x" and "y \<in> set xs"
  shows "y \<le> sum_list xs"
  using assms
proof (induction xs)
  case Nil
  then show ?case by simp
next
  case (Cons x xs)
  from Cons.prems(1) have n: "0 \<le> x" "\<forall>z \<in> set xs. 0 \<le> z" by simp_all
  from sum_list_map_nonneg[of xs "\<lambda>z. z", OF n(2)] have s: "0 \<le> sum_list xs" by simp
  show ?case
  proof (cases "y = x")
    case True
    with s show ?thesis by simp
  next
    case False
    with Cons.prems(2) have "y \<in> set xs" by simp
    from Cons.IH[OF n(2) this] n(1) show ?thesis by simp
  qed
qed

subsection \<open>The accumulation loop\<close>

lemma accumulate_dbl_inv:
  assumes "sub_inv sgs" and "accumulate_dbl t (sgs, cur) spec = (sgs', cur')"
  shows "sub_inv sgs' \<and> last sgs' \<noteq> [] \<and> concat sgs' = concat sgs @ [spec]"
proof (cases "js_gt (dadd cur (duration spec)) t \<and> length (last sgs) > 0")
  case True
  with assms(2) have s: "sgs' = sgs @ [[spec]]"
    by (simp add: accumulate_dbl_def)
  from assms(1) have "butlast sgs @ [last sgs] = sgs"
    by (simp add: sub_inv_def)
  then have "set sgs = set (butlast sgs) \<union> {last sgs}"
    by (metis set_append list.set(1) list.set(2))
  with assms(1) True have "\<forall>g \<in> set sgs. g \<noteq> []"
    by (auto simp: sub_inv_def)
  with s show ?thesis by (simp add: sub_inv_def)
next
  case False
  with assms(2) have s: "sgs' = butlast sgs @ [last sgs @ [spec]]"
    by (auto simp: accumulate_dbl_def)
  from assms(1) have "butlast sgs @ [last sgs] = sgs"
    by (simp add: sub_inv_def)
  then have "concat sgs = concat (butlast sgs @ [last sgs])"
    by simp
  then have "concat sgs = concat (butlast sgs) @ last sgs"
    by (simp only: concat_append concat.simps append_Nil2)
  with s assms(1) show ?thesis by (simp add: sub_inv_def)
qed

lemma accumulate_dbl_fold_inv:
  assumes "sub_inv sgs" and "foldl (accumulate_dbl t) (sgs, cur) sps = (sgs', cur')"
  shows "sub_inv sgs' \<and> (sps \<noteq> [] \<longrightarrow> last sgs' \<noteq> []) \<and> concat sgs' = concat sgs @ sps"
  using assms
proof (induction sps arbitrary: sgs cur)
  case Nil
  then show ?case by simp
next
  case (Cons s sps)
  obtain sgs1 cur1 where a: "accumulate_dbl t (sgs, cur) s = (sgs1, cur1)"
    by (cases "accumulate_dbl t (sgs, cur) s")
  from accumulate_dbl_inv[OF Cons.prems(1) a]
  have i1: "sub_inv sgs1" and l1: "last sgs1 \<noteq> []" and c1: "concat sgs1 = concat sgs @ [s]"
    by simp_all
  from Cons.prems(2) a have f: "foldl (accumulate_dbl t) (sgs1, cur1) sps = (sgs', cur')" by simp
  from Cons.IH[OF i1 f] have r: "sub_inv sgs'" "sps \<noteq> [] \<longrightarrow> last sgs' \<noteq> []"
    "concat sgs' = concat sgs1 @ sps" by simp_all
  have "last sgs' \<noteq> []"
  proof (cases sps)
    case Nil
    with f l1 show ?thesis by simp
  next
    case (Cons a list)
    with r(2) show ?thesis by simp
  qed
  with r c1 show ?case by simp
qed

lemma subgroups_dbl_inv:
  assumes "sps \<noteq> []"
  shows "(\<forall>g \<in> set (fst (foldl (accumulate_dbl t) ([[]], 0) sps)). g \<noteq> [])
         \<and> concat (fst (foldl (accumulate_dbl t) ([[]], 0) sps)) = sps"
proof -
  obtain sgs' cur' where f: "foldl (accumulate_dbl t) ([[]], 0) sps = (sgs', cur')"
    by (cases "foldl (accumulate_dbl t) ([[]], 0) sps")
  have "sub_inv [[]]" by (simp add: sub_inv_def)
  from accumulate_dbl_fold_inv[OF this f] assms
  have i: "sub_inv sgs'" and l: "last sgs' \<noteq> []" and c: "concat sgs' = sps" by simp_all
  from i have "butlast sgs' @ [last sgs'] = sgs'" by (simp add: sub_inv_def)
  then have "set sgs' = set (butlast sgs') \<union> {last sgs'}"
    by (metis set_append list.set(1) list.set(2))
  with i l have "\<forall>g \<in> set sgs'. g \<noteq> []" by (auto simp: sub_inv_def)
  with c f show ?thesis by simp
qed

subsection \<open>Splitting\<close>

lemma item_specs_make_item_dbl [simp]: "item_specs (make_item_dbl cap sps) = map path sps"
  by (simp add: make_item_dbl_def)

lemma item_duration_make_item_dbl [simp]:
  "item_duration (make_item_dbl cap sps) = total_duration_dbl sps"
  by (simp add: make_item_dbl_def)

lemma split_group_dbl_parts:
  assumes "ss \<noteq> []"
  shows "\<exists>sgs. split_group_dbl maxGD (cap, ss) = map (make_item_dbl cap) sgs
            \<and> (\<forall>g \<in> set sgs. g \<noteq> []) \<and> concat sgs = sort_desc duration ss"
proof (cases "total_duration_dbl (sort_desc duration ss) > maxGD \<and> length (sort_desc duration ss) > 1")
  case True
  define t where "t = js_div_dbl (total_duration_dbl (sort_desc duration ss))
      (Math_ceil (js_div_dbl (total_duration_dbl (sort_desc duration ss)) (Fin (of_int maxGD))))"
  from assms have ne: "sort_desc duration ss \<noteq> []"
    by (metis length_sort_desc length_0_conv)
  from True have "split_group_dbl maxGD (cap, ss) =
      map (make_item_dbl cap) (fst (foldl (accumulate_dbl t) ([[]], 0) (sort_desc duration ss)))"
    by (simp add: split_group_dbl_def Let_def t_def)
  with subgroups_dbl_inv[OF ne, of t] show ?thesis by blast
next
  case False
  from assms have ne: "sort_desc duration ss \<noteq> []"
    by (metis length_sort_desc length_0_conv)
  from False have "split_group_dbl maxGD (cap, ss) = map (make_item_dbl cap) [sort_desc duration ss]"
    by (auto simp add: split_group_dbl_def Let_def)
  with ne show ?thesis
    by (intro exI[of _ "[sort_desc duration ss]"]) simp
qed

lemma split_group_dbl_specs:
  assumes "ss \<noteq> []"
  shows "concat (map item_specs (split_group_dbl maxGD (cap, ss))) = map path (sort_desc duration ss)"
proof -
  from split_group_dbl_parts[OF assms, of maxGD cap] obtain sgs where
    s: "split_group_dbl maxGD (cap, ss) = map (make_item_dbl cap) sgs"
    and c: "concat sgs = sort_desc duration ss"
    by blast
  have "concat (map item_specs (map (make_item_dbl cap) sgs)) = map path (concat sgs)"
    by (simp add: comp_def map_concat)
  with s c show ?thesis by simp
qed

lemma split_group_dbl_nonempty:
  assumes "ss \<noteq> []" and "item \<in> set (split_group_dbl maxGD (cap, ss))"
  shows "item_specs item \<noteq> []"
proof -
  from split_group_dbl_parts[OF assms(1), of maxGD cap] obtain sgs where
    s: "split_group_dbl maxGD (cap, ss) = map (make_item_dbl cap) sgs"
    and n: "\<forall>g \<in> set sgs. g \<noteq> []"
    by blast
  from assms(2) s obtain g where "g \<in> set sgs" "item = make_item_dbl cap g" by auto
  with n show ?thesis by simp
qed

lemma splitLargeGroups_dbl_specs:
  assumes "\<forall>g \<in> set groups. snd g \<noteq> []"
  shows "mset (concat (map item_specs (splitLargeGroups_dbl groups maxGD))) =
           mset (map path (concat (map snd groups)))"
  using assms
proof (induction groups)
  case Nil
  show ?case by (simp add: splitLargeGroups_dbl_def)
next
  case (Cons g groups)
  obtain cap ss where g: "g = (cap, ss)" by (cases g)
  with Cons.prems have ne: "ss \<noteq> []" by simp
  have "mset (map path (sort_desc duration ss)) = mset (map path ss)"
    by simp
  with Cons g split_group_dbl_specs[OF ne, of maxGD cap] show ?case
    by (simp add: splitLargeGroups_dbl_def)
qed

lemma splitLargeGroups_dbl_nonempty:
  assumes "\<forall>g \<in> set groups. snd g \<noteq> []" and "item \<in> set (splitLargeGroups_dbl groups maxGD)"
  shows "item_specs item \<noteq> []"
proof -
  from assms(2) obtain g where g: "g \<in> set groups" "item \<in> set (split_group_dbl maxGD g)"
    by (auto simp: splitLargeGroups_dbl_def)
  obtain cap ss where p: "g = (cap, ss)" by (cases g)
  with g assms(1) have "ss \<noteq> []" by auto
  from split_group_dbl_nonempty[OF this, of item maxGD cap] g p show ?thesis by simp
qed

lemma packing_items_dbl_eq:
  "packing_items_dbl enriched maxGD =
     splitLargeGroups_dbl (fst (groupByCapability enriched)) maxGD
       @ map standard_item (snd (groupByCapability enriched))"
  by (simp add: packing_items_dbl_def split: prod.split)

lemma packing_items_dbl_specs:
  "mset (concat (map item_specs (packing_items_dbl enriched maxGD))) = mset (map path enriched)"
proof -
  have "concat (map item_specs (map standard_item xs)) = map path xs" for xs :: "SpecWithDuration list"
    by (induction xs) (simp_all add: standard_item_def)
  then have "mset (concat (map item_specs (packing_items_dbl enriched maxGD))) =
        mset (map path (concat (map snd (fst (groupByCapability enriched)))))
          + mset (map path (snd (groupByCapability enriched)))"
    by (simp add: packing_items_dbl_eq splitLargeGroups_dbl_specs[OF groups_nonempty])
  also have "\<dots> = image_mset path (mset (concat (map snd (fst (groupByCapability enriched))))
                       + mset (snd (groupByCapability enriched)))"
    by simp
  also have "\<dots> = mset (map path enriched)"
    by (simp only: groups_mset mset_map)
  finally show ?thesis .
qed

lemma packing_items_dbl_nonempty:
  "item \<in> set (packing_items_dbl enriched maxGD) \<Longrightarrow> item_specs item \<noteq> []"
  using splitLargeGroups_dbl_nonempty[OF groups_nonempty, of item enriched maxGD]
  by (auto simp: packing_items_dbl_eq standard_item_def)

subsection \<open>Durations of the packing items, when the additions are exact\<close>

lemma sublist_sum_le:
  fixes f :: "'a \<Rightarrow> int"
  assumes "\<forall>x \<in> set (concat xss). 0 \<le> f x" and "g \<in> set xss"
  shows "sum_list (map f g) \<le> sum_list (map f (concat xss))"
proof -
  have c: "sum_list (map f (concat xss)) = sum_list (map (\<lambda>xs. sum_list (map f xs)) xss)"
    by (rule sum_list_int_concat)
  have "\<forall>y \<in> set (map (\<lambda>xs. sum_list (map f xs)) xss). 0 \<le> y"
  proof
    fix y assume "y \<in> set (map (\<lambda>xs. sum_list (map f xs)) xss)"
    then obtain xs where xs: "xs \<in> set xss" "y = sum_list (map f xs)" by auto
    from xs(1) assms(1) have "\<forall>x \<in> set xs. 0 \<le> f x" by auto
    with xs(2) show "0 \<le> y" by (simp add: sum_list_map_nonneg)
  qed
  moreover from assms(2) have "sum_list (map f g) \<in> set (map (\<lambda>xs. sum_list (map f xs)) xss)"
    by auto
  ultimately have "sum_list (map f g) \<le> sum_list (map (\<lambda>xs. sum_list (map f xs)) xss)"
    by (rule elem_le_sum_list)
  with c show ?thesis by simp
qed

lemma split_group_dbl_durations:
  assumes ne: "ss \<noteq> []"
    and pos: "\<forall>s \<in> set ss. 0 \<le> duration s"
    and bound: "sum_list (map duration ss) \<le> 2 ^ 53"
  shows "sum_list (map item_duration (split_group_dbl maxGD (cap, ss))) = sum_list (map duration ss)
       \<and> (\<forall>item \<in> set (split_group_dbl maxGD (cap, ss)). 0 \<le> item_duration item)"
proof -
  from split_group_dbl_parts[OF ne, of maxGD cap] obtain sgs where
    s: "split_group_dbl maxGD (cap, ss) = map (make_item_dbl cap) sgs"
    and c: "concat sgs = sort_desc duration ss"
    by blast
  from pos c have pc: "\<forall>x \<in> set (concat sgs). 0 \<le> duration x" by simp
  have tot: "sum_list (map duration (concat sgs)) = sum_list (map duration ss)"
    unfolding c by (rule sum_list_mset_cong) simp
  have exact: "total_duration_dbl g = sum_list (map duration g)" if "g \<in> set sgs" for g
  proof (rule total_duration_dbl_exact)
    from that pc show "\<forall>s \<in> set g. 0 \<le> duration s" by auto
    from sublist_sum_le[OF pc that] tot bound show "sum_list (map duration g) \<le> 2 ^ 53" by simp
  qed
  have nonneg: "0 \<le> sum_list (map duration g)" if "g \<in> set sgs" for g
  proof (rule sum_list_map_nonneg)
    from that pc show "\<forall>s \<in> set g. 0 \<le> duration s" by auto
  qed
  have "map item_duration (map (make_item_dbl cap) sgs) = map (\<lambda>g. sum_list (map duration g)) sgs"
    using exact by simp
  then have "sum_list (map item_duration (map (make_item_dbl cap) sgs)) =
        sum_list (map duration (concat sgs))"
    by (simp only: sum_list_int_concat)
  with s tot have a: "sum_list (map item_duration (split_group_dbl maxGD (cap, ss))) =
      sum_list (map duration ss)" by simp
  have b: "\<forall>item \<in> set (split_group_dbl maxGD (cap, ss)). 0 \<le> item_duration item"
  proof
    fix item assume "item \<in> set (split_group_dbl maxGD (cap, ss))"
    with s obtain g where g: "g \<in> set sgs" "item = make_item_dbl cap g" by auto
    with exact[OF g(1)] nonneg[OF g(1)] show "0 \<le> item_duration item" by simp
  qed
  from a b show ?thesis ..
qed

lemma splitLargeGroups_dbl_durations:
  assumes "\<forall>g \<in> set groups. snd g \<noteq> []"
    and "\<forall>s \<in> set (concat (map snd groups)). 0 \<le> duration s"
    and "sum_list (map duration (concat (map snd groups))) \<le> 2 ^ 53"
  shows "sum_list (map item_duration (splitLargeGroups_dbl groups maxGD)) =
           sum_list (map duration (concat (map snd groups)))
       \<and> (\<forall>item \<in> set (splitLargeGroups_dbl groups maxGD). 0 \<le> item_duration item)"
  using assms
proof (induction groups)
  case Nil
  show ?case by (simp add: splitLargeGroups_dbl_def)
next
  case (Cons g groups)
  obtain cap ss where g: "g = (cap, ss)" by (cases g)
  with Cons.prems(1) have ne: "ss \<noteq> []" and ne': "\<forall>g \<in> set groups. snd g \<noteq> []" by simp_all
  from Cons.prems(2) g have pos: "\<forall>s \<in> set ss. 0 \<le> duration s"
    and pos': "\<forall>s \<in> set (concat (map snd groups)). 0 \<le> duration s" by auto
  from pos have n1: "0 \<le> sum_list (map duration ss)" by (rule sum_list_map_nonneg)
  from pos' have n2: "0 \<le> sum_list (map duration (concat (map snd groups)))"
    by (rule sum_list_map_nonneg)
  from Cons.prems(3) g have "sum_list (map duration ss)
      + sum_list (map duration (concat (map snd groups))) \<le> 2 ^ 53" by simp
  with n1 n2 have b1: "sum_list (map duration ss) \<le> 2 ^ 53"
    and b2: "sum_list (map duration (concat (map snd groups))) \<le> 2 ^ 53" by simp_all
  note h = split_group_dbl_durations[OF ne pos b1, of maxGD cap]
  note ih = Cons.IH[OF ne' pos' b2]
  have sp: "splitLargeGroups_dbl (g # groups) maxGD =
        split_group_dbl maxGD (cap, ss) @ splitLargeGroups_dbl groups maxGD"
    by (simp add: splitLargeGroups_dbl_def g)
  have "sum_list (map item_duration (splitLargeGroups_dbl (g # groups) maxGD)) =
        sum_list (map duration (concat (map snd (g # groups))))"
    unfolding sp using h ih g by simp
  moreover have "\<forall>item \<in> set (splitLargeGroups_dbl (g # groups) maxGD). 0 \<le> item_duration item"
    unfolding sp using h ih by auto
  ultimately show ?case ..
qed

lemma packing_items_dbl_durations:
  assumes pos: "\<forall>s \<in> set enriched. 0 \<le> duration s"
    and bound: "sum_list (map duration enriched) \<le> 2 ^ 53"
  shows "sum_list (map item_duration (packing_items_dbl enriched maxGD)) =
           sum_list (map duration enriched)
       \<and> (\<forall>item \<in> set (packing_items_dbl enriched maxGD). 0 \<le> item_duration item)"
proof -
  let ?G = "fst (groupByCapability enriched)"
  let ?S = "snd (groupByCapability enriched)"
  have m: "mset (concat (map snd ?G) @ ?S) = mset enriched"
    using groups_mset[of enriched] by simp
  then have sets: "set (concat (map snd ?G)) \<union> set ?S = set enriched"
    by (metis mset_eq_setD set_append)
  have total: "sum_list (map duration (concat (map snd ?G))) + sum_list (map duration ?S) =
      sum_list (map duration enriched)"
    using sum_list_mset_cong[OF m, of duration] by simp
  from sets pos have pg: "\<forall>s \<in> set (concat (map snd ?G)). 0 \<le> duration s"
    and ps: "\<forall>s \<in> set ?S. 0 \<le> duration s" by blast+
  from ps have "0 \<le> sum_list (map duration ?S)" by (rule sum_list_map_nonneg)
  with total bound have bg: "sum_list (map duration (concat (map snd ?G))) \<le> 2 ^ 53" by simp
  note h = splitLargeGroups_dbl_durations[OF groups_nonempty pg bg, of maxGD]
  have std: "sum_list (map item_duration (map standard_item ?S)) = sum_list (map duration ?S)"
    by (simp add: standard_item_def comp_def)
  have "sum_list (map item_duration (packing_items_dbl enriched maxGD)) =
        sum_list (map item_duration (splitLargeGroups_dbl ?G maxGD))
          + sum_list (map item_duration (map standard_item ?S))"
    unfolding packing_items_dbl_eq by simp
  with h std have "sum_list (map item_duration (packing_items_dbl enriched maxGD)) =
        sum_list (map duration (concat (map snd ?G))) + sum_list (map duration ?S)"
    by (simp only:)
  with total have a: "sum_list (map item_duration (packing_items_dbl enriched maxGD)) =
      sum_list (map duration enriched)" by simp
  have b: "\<forall>item \<in> set (packing_items_dbl enriched maxGD). 0 \<le> item_duration item"
  proof
    fix item assume "item \<in> set (packing_items_dbl enriched maxGD)"
    then consider "item \<in> set (splitLargeGroups_dbl ?G maxGD)"
      | "item \<in> set (map standard_item ?S)"
      unfolding packing_items_dbl_eq set_append by blast
    then show "0 \<le> item_duration item"
    proof cases
      case 1
      with h show ?thesis by blast
    next
      case 2
      then obtain s where "s \<in> set ?S" "item = standard_item s" by auto
      with ps show ?thesis by (simp add: standard_item_def)
    qed
  qed
  from a b show ?thesis ..
qed

subsection \<open>The packing loop over doubles\<close>

lemma bucket_specs_add_item_dbl [simp]:
  "bucket_specs (add_item_dbl b item) = bucket_specs b @ item_specs item"
  by (simp add: add_item_dbl_def Let_def split: option.split)

lemma bucket_testTime_add_item_dbl [simp]:
  "bucket_testTime (add_item_dbl b item) = dadd (bucket_testTime b) (item_duration item)"
  by (simp add: add_item_dbl_def Let_def split: option.split)

lemma assign_loop_dbl_total:
  assumes "buckets \<noteq> []"
  shows "\<exists>bs'. assign_loop_dbl items buckets = Inr bs' \<and> length bs' = length buckets"
  using assms
proof (induction items arbitrary: buckets)
  case Nil
  then show ?case by simp
next
  case (Cons item rest)
  from lightest_props[OF Cons.prems] obtain i where i: "lightest buckets = Inr i" by blast
  have "buckets[i := add_item_dbl (buckets ! i) item] \<noteq> []"
    using Cons.prems by simp
  from Cons.IH[OF this] i show ?case by simp
qed

lemma assign_loop_dbl_invariant:
  assumes "assign_loop_dbl items buckets = Inr bs'"
    and "P buckets"
    and "\<And>bs i item. P bs \<Longrightarrow> i < length bs \<Longrightarrow> item \<in> set items
            \<Longrightarrow> P (bs[i := add_item_dbl (bs ! i) item])"
  shows "P bs'"
  using assms
proof (induction items arbitrary: buckets)
  case Nil
  then show ?case by simp
next
  case (Cons item rest)
  show ?case
  proof (cases "buckets = []")
    case True
    with Cons.prems(1) show ?thesis by (simp add: lightest_empty)
  next
    case False
    from lightest_props[OF False] obtain i where i: "lightest buckets = Inr i" "i < length buckets"
      by blast
    from Cons.prems(1) i
    have r: "assign_loop_dbl rest (buckets[i := add_item_dbl (buckets ! i) item]) = Inr bs'" by simp
    have p: "P (buckets[i := add_item_dbl (buckets ! i) item])"
      using Cons.prems(2) i(2) by (rule Cons.prems(3)) simp
    show ?thesis
      by (rule Cons.IH[OF r p]) (rule Cons.prems(3), simp_all)
  qed
qed

lemma assign_loop_dbl_specs:
  assumes "assign_loop_dbl items buckets = Inr bs'"
  shows "mset (concat (map bucket_specs bs')) =
           mset (concat (map bucket_specs buckets)) + mset (concat (map item_specs items))"
  using assms
proof (induction items arbitrary: buckets)
  case Nil
  then show ?case by simp
next
  case (Cons item rest)
  show ?case
  proof (cases "buckets = []")
    case True
    with Cons.prems(1) show ?thesis by (simp add: lightest_empty)
  next
    case False
    from lightest_props[OF False] obtain i where i: "lightest buckets = Inr i" "i < length buckets"
      by blast
    let ?bs1 = "buckets[i := add_item_dbl (buckets ! i) item]"
    from Cons.prems(1) i have r: "assign_loop_dbl rest ?bs1 = Inr bs'" by simp
    from mset_concat_map_update[OF i(2), of bucket_specs "add_item_dbl (buckets ! i) item"]
    have m: "mset (concat (map bucket_specs ?bs1)) =
             mset (concat (map bucket_specs buckets)) + mset (item_specs item)"
      by simp
    from Cons.IH[OF r] m show ?thesis by simp
  qed
qed

lemma assign_loop_dbl_times:
  assumes run: "assign_loop_dbl items buckets = Inr bs'"
    and posb: "\<forall>b \<in> set buckets. 0 \<le> bucket_testTime b"
    and posi: "\<forall>item \<in> set items. 0 \<le> item_duration item"
    and bound: "sum_list (map bucket_testTime buckets) + sum_list (map item_duration items) \<le> 2 ^ 53"
  shows "sum_list (map bucket_testTime bs') =
           sum_list (map bucket_testTime buckets) + sum_list (map item_duration items)"
  using assms
proof (induction items arbitrary: buckets)
  case Nil
  then show ?case by simp
next
  case (Cons item rest)
  show ?case
  proof (cases "buckets = []")
    case True
    with Cons.prems(1) show ?thesis by (simp add: lightest_empty)
  next
    case False
    from lightest_props[OF False] obtain i where i: "lightest buckets = Inr i" "i < length buckets"
      by blast
    let ?b = "buckets ! i"
    let ?bs1 = "buckets[i := add_item_dbl ?b item]"
    from Cons.prems(1) i have r: "assign_loop_dbl rest ?bs1 = Inr bs'" by simp
    from Cons.prems(3) have d0: "0 \<le> item_duration item"
      and prest: "\<forall>it \<in> set rest. 0 \<le> item_duration it" by simp_all
    from prest have r0: "0 \<le> sum_list (map item_duration rest)" by (rule sum_list_map_nonneg)
    from i(2) have mem: "?b \<in> set buckets" by (rule nth_mem)
    from bspec[OF Cons.prems(2) mem] have t0: "0 \<le> bucket_testTime ?b" .
    have "\<forall>y \<in> set (map bucket_testTime buckets). 0 \<le> y"
      using Cons.prems(2) by auto
    moreover from mem have "bucket_testTime ?b \<in> set (map bucket_testTime buckets)" by simp
    ultimately have le: "bucket_testTime ?b \<le> sum_list (map bucket_testTime buckets)"
      by (rule elem_le_sum_list)
    from Cons.prems(4) have b4: "sum_list (map bucket_testTime buckets) + item_duration item
        + sum_list (map item_duration rest) \<le> 2 ^ 53" by simp
    with le r0 have "bucket_testTime ?b + item_duration item \<le> 2 ^ 53" by simp
    with t0 d0 have ex: "dadd (bucket_testTime ?b) (item_duration item) =
        bucket_testTime ?b + item_duration item" by (rule dadd_exact)
    from sum_list_map_update[OF i(2), of bucket_testTime "add_item_dbl ?b item"] ex
    have s1: "sum_list (map bucket_testTime ?bs1) =
        sum_list (map bucket_testTime buckets) + item_duration item" by simp
    have p1: "\<forall>b \<in> set ?bs1. 0 \<le> bucket_testTime b"
    proof
      fix b assume "b \<in> set ?bs1"
      from subsetD[OF set_update_subset_insert this]
      have "b = add_item_dbl ?b item \<or> b \<in> set buckets" by (simp only: insert_iff)
      then show "0 \<le> bucket_testTime b"
      proof
        assume "b = add_item_dbl ?b item"
        with ex t0 d0 show ?thesis by simp
      next
        assume "b \<in> set buckets"
        with Cons.prems(2) show ?thesis by (rule bspec)
      qed
    qed
    from b4 s1 have b1: "sum_list (map bucket_testTime ?bs1) + sum_list (map item_duration rest)
        \<le> 2 ^ 53" by simp
    from Cons.IH[OF r p1 prest b1] s1 show ?thesis by simp
  qed
qed

lemma assignToShards_dbl_total:
  assumes "0 < numShards"
  shows "\<exists>bs. assignToShards_dbl items numShards = Inr bs \<and> length bs = numShards"
proof -
  from assms have "replicate numShards empty_bucket \<noteq> []" by simp
  from assign_loop_dbl_total[OF this, of "sort_desc item_duration items"]
  show ?thesis by (simp add: assignToShards_dbl_def)
qed

lemma assignToShards_dbl_specs:
  assumes "assignToShards_dbl items numShards = Inr bs"
  shows "mset (concat (map bucket_specs bs)) = mset (concat (map item_specs items))"
proof -
  from assms have a: "assign_loop_dbl (sort_desc item_duration items)
      (replicate numShards empty_bucket) = Inr bs"
    by (simp add: assignToShards_dbl_def)
  have z1: "concat (map bucket_specs (replicate numShards empty_bucket)) = []"
    by (simp add: empty_bucket_def)
  have m: "mset (concat (map item_specs (sort_desc item_duration items))) =
           mset (concat (map item_specs items))"
    by (rule mset_concat_map_cong) simp
  from assign_loop_dbl_specs[OF a] z1 m show ?thesis by simp
qed

lemma assignToShards_dbl_times:
  assumes run: "assignToShards_dbl items numShards = Inr bs"
    and posi: "\<forall>item \<in> set items. 0 \<le> item_duration item"
    and bound: "sum_list (map item_duration items) \<le> 2 ^ 53"
  shows "sum_list (map bucket_testTime bs) = sum_list (map item_duration items)"
proof -
  from run have a: "assign_loop_dbl (sort_desc item_duration items)
      (replicate numShards empty_bucket) = Inr bs"
    by (simp add: assignToShards_dbl_def)
  have z: "sum_list (map bucket_testTime (replicate numShards empty_bucket)) = 0"
    by (simp add: empty_bucket_def sum_list_replicate)
  have s: "sum_list (map item_duration (sort_desc item_duration items)) =
           sum_list (map item_duration items)"
    by (rule sum_list_mset_cong) simp
  have pb: "\<forall>b \<in> set (replicate numShards empty_bucket). 0 \<le> bucket_testTime b"
    by (simp add: empty_bucket_def)
  from posi have pi: "\<forall>item \<in> set (sort_desc item_duration items). 0 \<le> item_duration item"
    by simp
  from bound z s have bd: "sum_list (map bucket_testTime (replicate numShards empty_bucket))
      + sum_list (map item_duration (sort_desc item_duration items)) \<le> 2 ^ 53" by simp
  from assign_loop_dbl_times[OF a pb pi bd] z s show ?thesis by simp
qed

lemma assignToShards_dbl_empty_zero:
  assumes "assignToShards_dbl items numShards = Inr bs"
    and "\<forall>item \<in> set items. item_specs item \<noteq> []"
  shows "empty_zero bs"
proof -
  from assms have a: "assign_loop_dbl (sort_desc item_duration items)
      (replicate numShards empty_bucket) = Inr bs"
    by (simp add: assignToShards_dbl_def)
  show ?thesis
  proof (rule assign_loop_dbl_invariant[OF a])
    show "empty_zero (replicate numShards empty_bucket)"
      by (simp add: empty_zero_def empty_bucket_def)
  next
    fix bs' :: "Bucket list" and i item
    assume p: "empty_zero bs'" and "i < length bs'"
      and mem: "item \<in> set (sort_desc item_duration items)"
    from mem assms(2) have ne: "item_specs item \<noteq> []" by simp
    show "empty_zero (bs'[i := add_item_dbl (bs' ! i) item])"
      unfolding empty_zero_def
    proof (intro ballI impI)
      fix b assume b: "b \<in> set (bs'[i := add_item_dbl (bs' ! i) item])" and e: "bucket_specs b = []"
      from subsetD[OF set_update_subset_insert b]
      have "b = add_item_dbl (bs' ! i) item \<or> b \<in> set bs'" by (simp only: insert_iff)
      then show "bucket_testTime b = 0"
      proof
        assume "b = add_item_dbl (bs' ! i) item"
        with e ne show ?thesis by simp
      next
        assume "b \<in> set bs'"
        with p e show ?thesis by (simp add: empty_zero_def)
      qed
    qed
  qed
qed

lemma orchestrate_dbl_Inr:
  assumes "0 < numShards"
  shows "\<exists>bs. assignToShards_dbl (packing_items_dbl (enrichWithDuration sps metrics (defaultDuration config))
                   (maxGroupDuration config)) numShards = Inr bs
            \<and> orchestrate_dbl sps numShards metrics config =
                Inr \<lparr>shards = finalize bs,
                     totalTestTime = total_duration_dbl
                        (enrichWithDuration sps metrics (defaultDuration config))\<rparr>"
proof -
  from assignToShards_dbl_total[OF assms] obtain bs where
    "assignToShards_dbl (packing_items_dbl (enrichWithDuration sps metrics (defaultDuration config))
                   (maxGroupDuration config)) numShards = Inr bs"
    by blast
  then show ?thesis by (simp add: orchestrate_dbl_def Let_def)
qed

section \<open>The claims\<close>

subsection \<open>Conservation\<close>

text \<open>
  Claim C1, as stated: for every input with \<open>numShards \<ge> 1\<close> the multiset union of all
  \<open>shard.specs\<close> equals the multiset of input paths, and the sum of \<open>testTime\<close> over the
  returned shards equals \<open>totalTestTime\<close>. The second half fails: a bucket adds its durations
  in packing order and \<open>totalTestTime\<close> adds them in input order, and double addition
  rounds. With durations \<open>1\<close>, \<open>1\<close> and \<open>2^53 = 9007199254740992\<close> on one shard, the bucket
  computes \<open>(2^53 + 1) + 1\<close>, where each addition rounds back to \<open>2^53\<close>, while
  \<open>totalTestTime\<close> is \<open>(1 + 1) + 2^53 = 2^53 + 2\<close>.
\<close>

theorem conservation_rounding_counterexample:
  "orchestrate_dbl
     [\<lparr>path = ''a.spec.ts'', capabilities = []\<rparr>,
      \<lparr>path = ''b.spec.ts'', capabilities = []\<rparr>,
      \<lparr>path = ''c.spec.ts'', capabilities = []\<rparr>]
     1 (map_of [(''a.spec.ts'', 1), (''b.spec.ts'', 1), (''c.spec.ts'', 9007199254740992)])
     \<lparr>defaultDuration = 60000, maxGroupDuration = 300000\<rparr>
   = Inr \<lparr>shards =
            [\<lparr>shard = 1, specs = [''c.spec.ts'', ''a.spec.ts'', ''b.spec.ts''],
              testTime = 9007199254740992, shard_capabilities = [], fixtureCount = 1\<rparr>],
          totalTestTime = 9007199254740994\<rparr>"
  by code_simp

text \<open>
  Claim C1, amended. For every list of discovered specs, every \<open>numShards \<ge> 1\<close>, every
  metrics map and every configuration, \<open>orchestrate\<close> returns a result in which the multiset
  union of all \<open>shard.specs\<close> equals the multiset of the input spec paths. If moreover every
  enriched duration is a non-negative integer and their sum is at most \<open>2^53\<close>, so that no
  addition rounds, then the sum of \<open>testTime\<close> over the returned shards equals
  \<open>totalTestTime\<close>, which is the sum of the enriched durations.
\<close>

theorem orchestrate_dbl_conservation:
  assumes "0 < numShards"
  shows "\<exists>r. orchestrate_dbl sps numShards metrics config = Inr r
           \<and> mset (concat (map specs (shards r))) = mset (map path sps)
           \<and> ((\<forall>e \<in> set (enrichWithDuration sps metrics (defaultDuration config)). 0 \<le> duration e)
                \<and> sum_list (map duration (enrichWithDuration sps metrics (defaultDuration config)))
                    \<le> 2 ^ 53
               \<longrightarrow> sum_list (map testTime (shards r)) = totalTestTime r
                 \<and> totalTestTime r =
                    sum_list (map duration (enrichWithDuration sps metrics (defaultDuration config))))"
proof -
  let ?e = "enrichWithDuration sps metrics (defaultDuration config)"
  let ?items = "packing_items_dbl ?e (maxGroupDuration config)"
  from orchestrate_dbl_Inr[OF assms, of sps metrics config] obtain bs where
    a: "assignToShards_dbl ?items numShards = Inr bs"
    and o: "orchestrate_dbl sps numShards metrics config =
              Inr \<lparr>shards = finalize bs, totalTestTime = total_duration_dbl ?e\<rparr>"
    by blast
  have ne: "\<forall>item \<in> set ?items. item_specs item \<noteq> []"
    using packing_items_dbl_nonempty by blast
  have "concat (map specs (finalize bs)) = concat (map bucket_specs bs)"
    by (simp only: map_specs_finalize concat_filter_nonempty)
  then have m: "mset (concat (map specs (finalize bs))) = mset (map path sps)"
    by (simp add: assignToShards_dbl_specs[OF a] packing_items_dbl_specs)
  from assignToShards_dbl_empty_zero[OF a ne]
  have "\<forall>b \<in> set bs. \<not> length (bucket_specs b) > 0 \<longrightarrow> bucket_testTime b = 0"
    by (simp add: empty_zero_def)
  then have f: "sum_list (map testTime (finalize bs)) = sum_list (map bucket_testTime bs)"
    unfolding map_testTime_finalize by (rule sum_list_filter_zero)
  have t: "sum_list (map testTime (finalize bs)) = total_duration_dbl ?e
           \<and> total_duration_dbl ?e = sum_list (map duration ?e)"
    if pos: "\<forall>e \<in> set ?e. 0 \<le> duration e" and bound: "sum_list (map duration ?e) \<le> 2 ^ 53"
  proof -
    note d = packing_items_dbl_durations[OF pos bound, of "maxGroupDuration config"]
    from d have ds: "sum_list (map item_duration ?items) = sum_list (map duration ?e)"
      and dp: "\<forall>item \<in> set ?items. 0 \<le> item_duration item" by simp_all
    from ds bound have db: "sum_list (map item_duration ?items) \<le> 2 ^ 53" by simp
    from assignToShards_dbl_times[OF a dp db] ds f
    have "sum_list (map testTime (finalize bs)) = sum_list (map duration ?e)" by simp
    moreover have "total_duration_dbl ?e = sum_list (map duration ?e)"
      using pos bound by (rule total_duration_dbl_exact)
    ultimately show ?thesis by simp
  qed
  let ?r = "\<lparr>shards = finalize bs, totalTestTime = total_duration_dbl ?e\<rparr>"
  have "orchestrate_dbl sps numShards metrics config = Inr ?r
           \<and> mset (concat (map specs (shards ?r))) = mset (map path sps)
           \<and> ((\<forall>e \<in> set ?e. 0 \<le> duration e) \<and> sum_list (map duration ?e) \<le> 2 ^ 53
               \<longrightarrow> sum_list (map testTime (shards ?r)) = totalTestTime ?r
                 \<and> totalTestTime ?r = sum_list (map duration ?e))"
    using o m t by simp
  then show ?thesis by (rule exI)
qed

theorem orchestrate_dbl_conservation_witness:
  "0 < (2::nat)
   \<and> list_all (\<lambda>e. 0 \<le> duration e)
       (enrichWithDuration
          [\<lparr>path = ''a.spec.ts'', capabilities = [''email'']\<rparr>,
           \<lparr>path = ''b.spec.ts'', capabilities = []\<rparr>,
           \<lparr>path = ''c.spec.ts'', capabilities = [''email'']\<rparr>]
          (map_of [(''a.spec.ts'', 100000)]) 60000)
   \<and> sum_list (map duration (enrichWithDuration
          [\<lparr>path = ''a.spec.ts'', capabilities = [''email'']\<rparr>,
           \<lparr>path = ''b.spec.ts'', capabilities = []\<rparr>,
           \<lparr>path = ''c.spec.ts'', capabilities = [''email'']\<rparr>]
          (map_of [(''a.spec.ts'', 100000)]) 60000)) \<le> 2 ^ 53
   \<and> (\<exists>r. orchestrate_dbl
          [\<lparr>path = ''a.spec.ts'', capabilities = [''email'']\<rparr>,
           \<lparr>path = ''b.spec.ts'', capabilities = []\<rparr>,
           \<lparr>path = ''c.spec.ts'', capabilities = [''email'']\<rparr>]
          2 (map_of [(''a.spec.ts'', 100000)])
          \<lparr>defaultDuration = 60000, maxGroupDuration = 300000\<rparr> = Inr r
      \<and> mset (concat (map specs (shards r))) =
          mset [''a.spec.ts'', ''b.spec.ts'', ''c.spec.ts'']
      \<and> sum_list (map testTime (shards r)) = totalTestTime r
      \<and> totalTestTime r = 220000)"
proof -
  let ?sps = "[\<lparr>path = ''a.spec.ts'', capabilities = [''email'']\<rparr>,
           \<lparr>path = ''b.spec.ts'', capabilities = []\<rparr>,
           \<lparr>path = ''c.spec.ts'', capabilities = [''email'']\<rparr>]"
  let ?m = "map_of [(''a.spec.ts'', 100000 :: int)]"
  let ?config = "\<lparr>defaultDuration = 60000, maxGroupDuration = 300000\<rparr>"
  have h: "0 < (2::nat)" by simp
  have e: "map duration (enrichWithDuration ?sps ?m 60000) = [100000, 60000, 60000]"
    by (simp add: enrichWithDuration_def)
  have p: "\<forall>e \<in> set (enrichWithDuration ?sps ?m (defaultDuration ?config)). 0 \<le> duration e"
    by (simp add: enrichWithDuration_def)
  have b: "sum_list (map duration (enrichWithDuration ?sps ?m (defaultDuration ?config))) \<le> 2 ^ 53"
    by (simp add: enrichWithDuration_def)
  from orchestrate_dbl_conservation[OF h, of ?sps ?m ?config] obtain r where
    r: "orchestrate_dbl ?sps 2 ?m ?config = Inr r"
    and m: "mset (concat (map specs (shards r))) = mset (map path ?sps)"
    and t: "(\<forall>e \<in> set (enrichWithDuration ?sps ?m (defaultDuration ?config)). 0 \<le> duration e)
                \<and> sum_list (map duration (enrichWithDuration ?sps ?m (defaultDuration ?config)))
                    \<le> 2 ^ 53
               \<longrightarrow> sum_list (map testTime (shards r)) = totalTestTime r
                 \<and> totalTestTime r =
                    sum_list (map duration (enrichWithDuration ?sps ?m (defaultDuration ?config)))"
    by blast
  from t p b have t': "sum_list (map testTime (shards r)) = totalTestTime r"
    and t'': "totalTestTime r =
       sum_list (map duration (enrichWithDuration ?sps ?m (defaultDuration ?config)))"
    by blast+
  from t'' e have tot: "totalTestTime r = 220000" by simp
  from m have m': "mset (concat (map specs (shards r))) =
      mset [''a.spec.ts'', ''b.spec.ts'', ''c.spec.ts'']" by simp
  from r m' t' tot have ex: "\<exists>r. orchestrate_dbl ?sps 2 ?m ?config = Inr r
      \<and> mset (concat (map specs (shards r))) = mset [''a.spec.ts'', ''b.spec.ts'', ''c.spec.ts'']
      \<and> sum_list (map testTime (shards r)) = totalTestTime r
      \<and> totalTestTime r = 220000"
    by blast
  from p have p': "list_all (\<lambda>e. 0 \<le> duration e) (enrichWithDuration ?sps ?m 60000)"
    by (simp add: list_all_iff)
  from b have b': "sum_list (map duration (enrichWithDuration ?sps ?m 60000)) \<le> 2 ^ 53"
    by simp
  show ?thesis
    by (rule conjI[OF h conjI[OF p' conjI[OF b' ex]]])
qed

subsection \<open>Shard numbering and non-empty shards\<close>

text \<open>
  Claim C2. For every input with \<open>numShards \<ge> 1\<close>, the returned shards carry the shard
  numbers \<open>1, 2, \<dots>, K\<close> in this order, where \<open>K\<close> is the number of returned shards and
  \<open>K \<le> numShards\<close>, and every returned shard has a non-empty \<open>specs\<close> list.
\<close>

theorem orchestrate_shard_numbering:
  assumes "0 < numShards"
  shows "\<exists>r. orchestrate sps numShards metrics config = Inr r
           \<and> map shard (shards r) = [1 ..< Suc (length (shards r))]
           \<and> length (shards r) \<le> numShards
           \<and> (\<forall>sh \<in> set (shards r). specs sh \<noteq> [])"
proof -
  from orchestrate_Inr[OF assms, of sps metrics config] obtain bs where
    l: "length bs = numShards"
    and o: "orchestrate sps numShards metrics config =
              Inr \<lparr>shards = finalize bs, totalTestTime = total_duration
                        (enrichWithDuration sps metrics (defaultDuration config))\<rparr>"
    by blast
  have len: "length (finalize bs) = length (filter (\<lambda>b. length (bucket_specs b) > 0) bs)"
    by (simp add: finalize_def)
  have n: "map shard (finalize bs) = [1 ..< Suc (length (finalize bs))]"
    by (simp only: map_shard_finalize len)
  have k: "length (finalize bs) \<le> numShards"
    unfolding len l[symmetric] by (rule length_filter_le)
  have e: "\<forall>sh \<in> set (finalize bs). specs sh \<noteq> []"
    using finalize_members by fastforce
  from o n k e show ?thesis by simp
qed

theorem orchestrate_shard_numbering_witness:
  "0 < (5::nat) \<and>
   (\<exists>r. orchestrate
          [\<lparr>path = ''a.spec.ts'', capabilities = []\<rparr>,
           \<lparr>path = ''b.spec.ts'', capabilities = []\<rparr>]
          5 (map_of []) \<lparr>defaultDuration = 60000, maxGroupDuration = 300000\<rparr> = Inr r
      \<and> map shard (shards r) = [1 ..< Suc (length (shards r))]
      \<and> length (shards r) \<le> 5
      \<and> (\<forall>sh \<in> set (shards r). specs sh \<noteq> []))"
proof -
  have h: "0 < (5::nat)" by simp
  show ?thesis
    by (rule conjI[OF h orchestrate_shard_numbering[OF h]])
qed

subsection \<open>Enrichment\<close>

text \<open>
  Claim C3, as stated: the attached duration equals \<open>metrics[path]\<close> whenever the path is a
  key of the metrics map, whatever the stored value is, and equals \<open>defaultDuration\<close> exactly
  when the path is absent. The source writes \<open>metrics[spec.path] || defaultDuration\<close>, so a
  stored \<open>0\<close> is replaced by the default: with \<open>a.spec.ts\<close> stored as \<open>0\<close> and a default
  of \<open>60000\<close> the attached duration is \<open>60000\<close>.
\<close>

theorem enrich_zero_metric_counterexample:
  "map_of [(''a.spec.ts'', 0 :: int)] ''a.spec.ts'' = Some 0
   \<and> map duration (enrichWithDuration [\<lparr>path = ''a.spec.ts'', capabilities = []\<rparr>]
                      (map_of [(''a.spec.ts'', 0)]) 60000) = [60000]"
  by (simp add: enrichWithDuration_def)

text \<open>
  Claim C3, amended. Enrichment keeps the length, the path and the capabilities of every spec;
  the attached duration equals \<open>metrics[path]\<close> whenever the path is a key of the metrics map
  with a non-zero value, and equals \<open>defaultDuration\<close> when the path is absent from the map or
  the stored value is \<open>0\<close>.
\<close>

theorem enrich_duration:
  "length (enrichWithDuration sps metrics dflt) = length sps
   \<and> (\<forall>i < length sps.
         path (enrichWithDuration sps metrics dflt ! i) = path (sps ! i)
       \<and> capabilities (enrichWithDuration sps metrics dflt ! i) = capabilities (sps ! i)
       \<and> (\<forall>d. metrics (path (sps ! i)) = Some d \<and> d \<noteq> 0
               \<longrightarrow> duration (enrichWithDuration sps metrics dflt ! i) = d)
       \<and> (metrics (path (sps ! i)) = None \<or> metrics (path (sps ! i)) = Some 0
               \<longrightarrow> duration (enrichWithDuration sps metrics dflt ! i) = dflt))"
  by (auto simp: enrichWithDuration_def)

theorem enrich_duration_witness:
  "map_of [(''a.spec.ts'', 120000 :: int), (''c.spec.ts'', 0)] ''a.spec.ts'' = Some 120000
   \<and> map_of [(''a.spec.ts'', 120000 :: int), (''c.spec.ts'', 0)] ''b.spec.ts'' = None
   \<and> map_of [(''a.spec.ts'', 120000 :: int), (''c.spec.ts'', 0)] ''c.spec.ts'' = Some 0
   \<and> map duration (enrichWithDuration
          [\<lparr>path = ''a.spec.ts'', capabilities = []\<rparr>,
           \<lparr>path = ''b.spec.ts'', capabilities = [''email'']\<rparr>,
           \<lparr>path = ''c.spec.ts'', capabilities = []\<rparr>]
          (map_of [(''a.spec.ts'', 120000), (''c.spec.ts'', 0)]) 60000) = [120000, 60000, 60000]"
  using enrich_duration[of
          "[\<lparr>path = ''a.spec.ts'', capabilities = []\<rparr>,
            \<lparr>path = ''b.spec.ts'', capabilities = [''email'']\<rparr>,
            \<lparr>path = ''c.spec.ts'', capabilities = []\<rparr>]"
          "map_of [(''a.spec.ts'', 120000), (''c.spec.ts'', 0)]" 60000]
  by (simp add: enrichWithDuration_def)

subsection \<open>Greedy bin-packing\<close>

text \<open>
  Claim C6. \<open>assignToShards\<close> runs the packing loop over the items in descending order of
  duration (a permutation of the items). Each step of the loop, on a non-empty bucket array,
  picks a bucket whose accumulated \<open>testTime\<close> is lowest, every earlier bucket being strictly
  heavier (ties go to the earliest bucket), appends the item's specs to it and adds the item's
  duration. Orchestrating four capability-less specs with durations 100000, 50000, 25000 and
  25000 into 2 shards yields two shards that both report \<open>testTime = 100000\<close>.
\<close>

theorem assignToShards_greedy:
  "(assignToShards items numShards =
      assign_loop (sort_desc item_duration items) (replicate numShards empty_bucket)
    \<and> sorted_wrt (\<lambda>a b. item_duration b \<le> item_duration a) (sort_desc item_duration items)
    \<and> mset (sort_desc item_duration items) = mset items)
   \<and> (buckets \<noteq> [] \<longrightarrow>
        (\<exists>i < length buckets.
            (\<forall>j < length buckets. bucket_testTime (buckets ! i) \<le> bucket_testTime (buckets ! j))
          \<and> (\<forall>j < i. bucket_testTime (buckets ! i) < bucket_testTime (buckets ! j))
          \<and> assign_loop (item # rest) buckets =
              assign_loop rest (buckets[i := add_item (buckets ! i) item])
          \<and> bucket_specs (add_item (buckets ! i) item) = bucket_specs (buckets ! i) @ item_specs item
          \<and> bucket_testTime (add_item (buckets ! i) item) =
              bucket_testTime (buckets ! i) + item_duration item))
   \<and> orchestrate
        [\<lparr>path = ''heavy.spec.ts'', capabilities = []\<rparr>,
         \<lparr>path = ''medium.spec.ts'', capabilities = []\<rparr>,
         \<lparr>path = ''light1.spec.ts'', capabilities = []\<rparr>,
         \<lparr>path = ''light2.spec.ts'', capabilities = []\<rparr>]
        2
        (map_of [(''heavy.spec.ts'', 100000), (''medium.spec.ts'', 50000),
                 (''light1.spec.ts'', 25000), (''light2.spec.ts'', 25000)])
        \<lparr>defaultDuration = 60000, maxGroupDuration = 300000\<rparr>
      = Inr \<lparr>shards =
               [\<lparr>shard = 1, specs = [''heavy.spec.ts''], testTime = 100000,
                 shard_capabilities = [], fixtureCount = 1\<rparr>,
                \<lparr>shard = 2, specs = [''medium.spec.ts'', ''light1.spec.ts'', ''light2.spec.ts''],
                 testTime = 100000, shard_capabilities = [], fixtureCount = 1\<rparr>],
             totalTestTime = 200000\<rparr>"
proof (intro conjI impI)
  show "assignToShards items numShards =
      assign_loop (sort_desc item_duration items) (replicate numShards empty_bucket)"
    by (simp add: assignToShards_def)
  show "sorted_wrt (\<lambda>a b. item_duration b \<le> item_duration a) (sort_desc item_duration items)"
    by (rule sorted_sort_desc)
  show "mset (sort_desc item_duration items) = mset items"
    by simp
next
  assume "buckets \<noteq> []"
  from lightest_props[OF this] obtain i where
    "lightest buckets = Inr i" "i < length buckets"
    "\<forall>j < length buckets. bucket_testTime (buckets ! i) \<le> bucket_testTime (buckets ! j)"
    "\<forall>j < i. bucket_testTime (buckets ! i) < bucket_testTime (buckets ! j)"
    by blast
  then show "\<exists>i < length buckets.
            (\<forall>j < length buckets. bucket_testTime (buckets ! i) \<le> bucket_testTime (buckets ! j))
          \<and> (\<forall>j < i. bucket_testTime (buckets ! i) < bucket_testTime (buckets ! j))
          \<and> assign_loop (item # rest) buckets =
              assign_loop rest (buckets[i := add_item (buckets ! i) item])
          \<and> bucket_specs (add_item (buckets ! i) item) = bucket_specs (buckets ! i) @ item_specs item
          \<and> bucket_testTime (add_item (buckets ! i) item) =
              bucket_testTime (buckets ! i) + item_duration item"
    by (intro exI[of _ i]) simp
next
  show "orchestrate
        [\<lparr>path = ''heavy.spec.ts'', capabilities = []\<rparr>,
         \<lparr>path = ''medium.spec.ts'', capabilities = []\<rparr>,
         \<lparr>path = ''light1.spec.ts'', capabilities = []\<rparr>,
         \<lparr>path = ''light2.spec.ts'', capabilities = []\<rparr>]
        2
        (map_of [(''heavy.spec.ts'', 100000), (''medium.spec.ts'', 50000),
                 (''light1.spec.ts'', 25000), (''light2.spec.ts'', 25000)])
        \<lparr>defaultDuration = 60000, maxGroupDuration = 300000\<rparr>
      = Inr \<lparr>shards =
               [\<lparr>shard = 1, specs = [''heavy.spec.ts''], testTime = 100000,
                 shard_capabilities = [], fixtureCount = 1\<rparr>,
                \<lparr>shard = 2, specs = [''medium.spec.ts'', ''light1.spec.ts'', ''light2.spec.ts''],
                 testTime = 100000, shard_capabilities = [], fixtureCount = 1\<rparr>],
             totalTestTime = 200000\<rparr>"
    by code_simp
qed

theorem assignToShards_greedy_witness:
  "[\<lparr>bucket_specs = [''a.spec.ts''], bucket_testTime = 50000, bucket_capabilities = [],
      hasStandardSpecs = True\<rparr>,
    \<lparr>bucket_specs = [''b.spec.ts''], bucket_testTime = 50000, bucket_capabilities = [],
      hasStandardSpecs = True\<rparr>] \<noteq> []
   \<and> assign_loop [\<lparr>capability = None, item_specs = [''c.spec.ts''], item_duration = 25000\<rparr>]
       [\<lparr>bucket_specs = [''a.spec.ts''], bucket_testTime = 50000, bucket_capabilities = [],
          hasStandardSpecs = True\<rparr>,
        \<lparr>bucket_specs = [''b.spec.ts''], bucket_testTime = 50000, bucket_capabilities = [],
          hasStandardSpecs = True\<rparr>]
     = Inr [\<lparr>bucket_specs = [''a.spec.ts'', ''c.spec.ts''], bucket_testTime = 75000,
              bucket_capabilities = [], hasStandardSpecs = True\<rparr>,
            \<lparr>bucket_specs = [''b.spec.ts''], bucket_testTime = 50000,
              bucket_capabilities = [], hasStandardSpecs = True\<rparr>]"
proof -
  let ?a = "\<lparr>bucket_specs = [''a.spec.ts''], bucket_testTime = 50000, bucket_capabilities = [],
      hasStandardSpecs = True\<rparr>"
  let ?b = "\<lparr>bucket_specs = [''b.spec.ts''], bucket_testTime = 50000, bucket_capabilities = [],
      hasStandardSpecs = True\<rparr>"
  let ?item = "\<lparr>capability = None, item_specs = [''c.spec.ts''], item_duration = 25000\<rparr>"
  have h: "[?a, ?b] \<noteq> []" by simp
  from assignToShards_greedy[of "[]" 0 "[?a, ?b]" ?item "[]",
         THEN conjunct2, THEN conjunct1, THEN mp, OF h]
  obtain i where i: "i < length [?a, ?b]"
    and earlier: "\<forall>j < i. bucket_testTime ([?a, ?b] ! i) < bucket_testTime ([?a, ?b] ! j)"
    and step: "assign_loop [?item] [?a, ?b] =
                 assign_loop [] ([?a, ?b][i := add_item ([?a, ?b] ! i) ?item])"
    by blast
  from i have "i = 0 \<or> i = 1" by auto
  moreover have "i \<noteq> 1"
  proof
    assume i1: "i = 1"
    have "(0::nat) < 1" by simp
    from earlier[unfolded i1, rule_format, OF this]
    show False by simp
  qed
  ultimately have "i = 0" by simp
  with step have "assign_loop [?item] [?a, ?b] = Inr [add_item ?a ?item, ?b]" by simp
  then have "assign_loop [?item] [?a, ?b] =
     Inr [\<lparr>bucket_specs = [''a.spec.ts'', ''c.spec.ts''], bucket_testTime = 75000,
              bucket_capabilities = [], hasStandardSpecs = True\<rparr>, ?b]"
    by (simp add: add_item_def)
  with h show ?thesis by (rule conjI)
qed

subsection \<open>Splitting oversized groups\<close>



subsection \<open>Capability cohesion\<close>




subsection \<open>Only the first capability of a spec counts\<close>

text \<open>
  Claim C10. Orchestration depends on each spec's first capability only: cutting every
  capability list down to its first entry leaves the result of \<open>orchestrate\<close> unchanged. If a
  capability name is never the first capability of an input spec, then deleting it from every
  capability list leaves the result unchanged, it occurs in no returned shard's capabilities
  list, and every shard's \<open>fixtureCount\<close> is the length of its capabilities list, or that plus
  one: the name contributes nothing to any \<open>fixtureCount\<close>.
\<close>

theorem first_capability_only:
  "orchestrate (map keep_first sps) numShards metrics config =
     orchestrate sps numShards metrics config
   \<and> ((\<forall>s \<in> set sps. first_cap s \<noteq> Some c) \<longrightarrow>
        orchestrate (map (drop_capability c) sps) numShards metrics config =
          orchestrate sps numShards metrics config
      \<and> (\<forall>r. orchestrate sps numShards metrics config = Inr r \<longrightarrow>
            (\<forall>sh \<in> set (shards r).
                c \<notin> set (shard_capabilities sh)
              \<and> (fixtureCount sh = length (shard_capabilities sh)
                 \<or> fixtureCount sh = length (shard_capabilities sh) + 1))))"
proof (intro conjI impI allI ballI)
  show "orchestrate (map keep_first sps) numShards metrics config =
     orchestrate sps numShards metrics config"
    by (rule orchestrate_keep_first)
next
  assume "\<forall>s \<in> set sps. first_cap s \<noteq> Some c"
  then show "orchestrate (map (drop_capability c) sps) numShards metrics config =
          orchestrate sps numShards metrics config"
    by (rule orchestrate_drop_capability)
next
  fix r sh
  assume never: "\<forall>s \<in> set sps. first_cap s \<noteq> Some c"
    and r: "orchestrate sps numShards metrics config = Inr r"
    and sh: "sh \<in> set (shards r)"
  let ?items = "packing_items (enrichWithDuration sps metrics (defaultDuration config))
                  (maxGroupDuration config)"
  from r obtain bs where a: "assignToShards ?items numShards = Inr bs"
    and s: "shards r = finalize bs"
    by (auto simp: orchestrate_def Let_def split: sum.splits)
  from sh s finalize_members[of sh bs] obtain b where b: "b \<in> set bs"
    "shard_capabilities sh = sort (bucket_capabilities b)"
    "fixtureCount sh = length (bucket_capabilities b) + (if hasStandardSpecs b then 1 else 0)"
    by auto
  show "c \<notin> set (shard_capabilities sh)"
  proof
    assume "c \<in> set (shard_capabilities sh)"
    with b(2) have "c \<in> set (bucket_capabilities b)" by simp
    with assignToShards_capabilities[OF a b(1)]
    obtain item where "item \<in> set ?items" "capability item = Some c" by auto
    from packing_items_capability[OF this] never show False by blast
  qed
  from b(2,3) show "fixtureCount sh = length (shard_capabilities sh)
                 \<or> fixtureCount sh = length (shard_capabilities sh) + 1"
    by simp
qed

theorem first_capability_only_witness:
  "list_all (\<lambda>s. first_cap s \<noteq> Some ''proxy'')
     [\<lparr>path = ''a.spec.ts'', capabilities = [''email'', ''proxy'']\<rparr>,
      \<lparr>path = ''b.spec.ts'', capabilities = []\<rparr>]
   \<and> orchestrate
     [\<lparr>path = ''a.spec.ts'', capabilities = [''email'', ''proxy'']\<rparr>,
      \<lparr>path = ''b.spec.ts'', capabilities = []\<rparr>]
     2 (map_of []) \<lparr>defaultDuration = 60000, maxGroupDuration = 300000\<rparr>
     = Inr \<lparr>shards =
          [\<lparr>shard = 1, specs = [''a.spec.ts''], testTime = 60000,
            shard_capabilities = [''email''], fixtureCount = 1\<rparr>,
           \<lparr>shard = 2, specs = [''b.spec.ts''], testTime = 60000,
            shard_capabilities = [], fixtureCount = 1\<rparr>],
        totalTestTime = 120000\<rparr>
   \<and> orchestrate (map (drop_capability ''proxy'')
     [\<lparr>path = ''a.spec.ts'', capabilities = [''email'', ''proxy'']\<rparr>,
      \<lparr>path = ''b.spec.ts'', capabilities = []\<rparr>])
     2 (map_of []) \<lparr>defaultDuration = 60000, maxGroupDuration = 300000\<rparr>
     = orchestrate
     [\<lparr>path = ''a.spec.ts'', capabilities = [''email'', ''proxy'']\<rparr>,
      \<lparr>path = ''b.spec.ts'', capabilities = []\<rparr>]
     2 (map_of []) \<lparr>defaultDuration = 60000, maxGroupDuration = 300000\<rparr>
   \<and> list_all (\<lambda>sh. ''proxy'' \<notin> set (shard_capabilities sh)
                 \<and> (fixtureCount sh = length (shard_capabilities sh)
                    \<or> fixtureCount sh = length (shard_capabilities sh) + 1))
       (shards \<lparr>shards =
          [\<lparr>shard = 1, specs = [''a.spec.ts''], testTime = 60000,
            shard_capabilities = [''email''], fixtureCount = 1\<rparr>,
           \<lparr>shard = 2, specs = [''b.spec.ts''], testTime = 60000,
            shard_capabilities = [], fixtureCount = 1\<rparr>],
        totalTestTime = 120000\<rparr>)"
proof -
  have h: "\<forall>s \<in> set
     [\<lparr>path = ''a.spec.ts'', capabilities = [''email'', ''proxy'']\<rparr>,
      \<lparr>path = ''b.spec.ts'', capabilities = []\<rparr>]. first_cap s \<noteq> Some ''proxy''"
    by (simp add: first_cap_def)
  have e: "orchestrate
     [\<lparr>path = ''a.spec.ts'', capabilities = [''email'', ''proxy'']\<rparr>,
      \<lparr>path = ''b.spec.ts'', capabilities = []\<rparr>]
     2 (map_of []) \<lparr>defaultDuration = 60000, maxGroupDuration = 300000\<rparr>
     = Inr \<lparr>shards =
          [\<lparr>shard = 1, specs = [''a.spec.ts''], testTime = 60000,
            shard_capabilities = [''email''], fixtureCount = 1\<rparr>,
           \<lparr>shard = 2, specs = [''b.spec.ts''], testTime = 60000,
            shard_capabilities = [], fixtureCount = 1\<rparr>],
        totalTestTime = 120000\<rparr>"
    by code_simp
  note t = first_capability_only[of _ 2 "map_of []" _ "''proxy''",
             THEN conjunct2, THEN mp, OF h]
  from t have t1: "orchestrate (map (drop_capability ''proxy'')
     [\<lparr>path = ''a.spec.ts'', capabilities = [''email'', ''proxy'']\<rparr>,
      \<lparr>path = ''b.spec.ts'', capabilities = []\<rparr>])
     2 (map_of []) \<lparr>defaultDuration = 60000, maxGroupDuration = 300000\<rparr>
     = orchestrate
     [\<lparr>path = ''a.spec.ts'', capabilities = [''email'', ''proxy'']\<rparr>,
      \<lparr>path = ''b.spec.ts'', capabilities = []\<rparr>]
     2 (map_of []) \<lparr>defaultDuration = 60000, maxGroupDuration = 300000\<rparr>"
    by (rule conjunct1)
  from t e have t2: "\<forall>sh \<in> set (shards \<lparr>shards =
          [\<lparr>shard = 1, specs = [''a.spec.ts''], testTime = 60000,
            shard_capabilities = [''email''], fixtureCount = 1\<rparr>,
           \<lparr>shard = 2, specs = [''b.spec.ts''], testTime = 60000,
            shard_capabilities = [], fixtureCount = 1\<rparr>],
        totalTestTime = 120000\<rparr>).
          ''proxy'' \<notin> set (shard_capabilities sh)
        \<and> (fixtureCount sh = length (shard_capabilities sh)
           \<or> fixtureCount sh = length (shard_capabilities sh) + 1)"
    by blast
  show ?thesis
    by (rule conjI[OF h[folded list_all_iff] conjI[OF e conjI[OF t1 t2[folded list_all_iff]]]])
qed

subsection \<open>Skipped scopes\<close>

text \<open>
  Claim C8. A \<open>test.fixme\<close> or \<open>test.skip\<close> call with zero arguments marks its nearest
  enclosing block as a skipped scope. Every recognized call that has a skipped scope among
  its enclosing blocks is recorded as skipped, whatever its own marker and tags are; so a
  recognized call lying anywhere inside the block of a zero-argument disable marker is
  recorded as skipped. The file
  \<open>test.describe('g', () => { test.fixme(); test('inner', () => {}) })\<close> yields no
  discovered spec, for every configuration.
\<close>

theorem skipped_scope_propagation:
  "(\<forall>marker \<in> set (call_expressions file).
      (expr marker = ''test.fixme'' \<or> expr marker = ''test.skip'') \<and> args marker = []
        \<longrightarrow> (\<forall>parent outer. blocks marker = parent # outer \<longrightarrow>
               parent \<in> set (findSkippedScopes file)
             \<and> (\<forall>call \<in> set (call_expressions file). \<forall>info.
                   parent \<in> set (blocks call)
                   \<and> parseTestCall call (skipTags config) = Some info \<longrightarrow>
                     visit_call (skipTags config) (findSkippedScopes file) call =
                       Some (info\<lparr>skipped := True\<rparr>))))
   \<and> (\<forall>call \<in> set (call_expressions file). \<forall>info.
         (\<exists>b \<in> set (blocks call). b \<in> set (findSkippedScopes file))
         \<and> parseTestCall call (skipTags config) = Some info \<longrightarrow>
           visit_call (skipTags config) (findSkippedScopes file) call =
             Some (info\<lparr>skipped := True\<rparr>))
   \<and> extractTestCalls config file =
       List.map_filter (visit_call (skipTags config) (findSkippedScopes file))
         (call_expressions file)
   \<and> analyzeTestFile config getRelativePath
        \<lparr>filePath = p,
         statements =
           [Other [CallExpression ''test.describe'' (Other [])
              [StringLiteral ''g'',
               ArrowFunction (Block 25
                 [Other [CallExpression ''test.fixme'' (Other []) []],
                  Other [CallExpression ''test'' (Other [])
                    [StringLiteral ''inner'', ArrowFunction (Block 61 [])]]])]]]\<rparr>
       = None"
proof (intro conjI ballI allI impI)
  fix marker parent outer
  assume m: "marker \<in> set (call_expressions file)"
    "(expr marker = ''test.fixme'' \<or> expr marker = ''test.skip'') \<and> args marker = []"
    "blocks marker = parent # outer"
  then have "extractSkippedBlock marker = Some parent"
    by (simp add: marker_marks_parent)
  with m(1) show p: "parent \<in> set (findSkippedScopes file)"
    unfolding set_findSkippedScopes by blast
  fix call info
  assume "parent \<in> set (blocks call) \<and> parseTestCall call (skipTags config) = Some info"
  with p show "visit_call (skipTags config) (findSkippedScopes file) call =
                 Some (info\<lparr>skipped := True\<rparr>)"
    by (intro visit_call_inside) auto
next
  fix call info
  assume "(\<exists>b \<in> set (blocks call). b \<in> set (findSkippedScopes file))
         \<and> parseTestCall call (skipTags config) = Some info"
  then show "visit_call (skipTags config) (findSkippedScopes file) call =
                 Some (info\<lparr>skipped := True\<rparr>)"
    by (intro visit_call_inside) auto
next
  show "extractTestCalls config file =
       List.map_filter (visit_call (skipTags config) (findSkippedScopes file))
         (call_expressions file)"
    by (simp add: extractTestCalls_def)
next
  let ?file = "\<lparr>filePath = p,
         statements =
           [Other [CallExpression ''test.describe'' (Other [])
              [StringLiteral ''g'',
               ArrowFunction (Block 25
                 [Other [CallExpression ''test.fixme'' (Other []) []],
                  Other [CallExpression ''test'' (Other [])
                    [StringLiteral ''inner'', ArrowFunction (Block 61 [])]]])]]]\<rparr>"
  have c: "call_expressions ?file =
      [\<lparr>expr = ''test.describe'',
        args = [StringLiteral ''g'',
               ArrowFunction (Block 25
                 [Other [CallExpression ''test.fixme'' (Other []) []],
                  Other [CallExpression ''test'' (Other [])
                    [StringLiteral ''inner'', ArrowFunction (Block 61 [])]]])],
        blocks = []\<rparr>,
       \<lparr>expr = ''test.fixme'', args = [], blocks = [25]\<rparr>,
       \<lparr>expr = ''test'', args = [StringLiteral ''inner'', ArrowFunction (Block 61 [])],
        blocks = [25]\<rparr>]"
    by (simp add: call_expressions_def)
  have s: "findSkippedScopes ?file = [25]"
    unfolding findSkippedScopes_def c
    by (simp add: extractSkippedBlock_def set_add_def)
  have t: "extractTestCalls config ?file =
      [\<lparr>skipped = False, isDescribe = True, tags = []\<rparr>,
       \<lparr>skipped = True, isDescribe = False, tags = []\<rparr>]"
    unfolding extractTestCalls_def s c
    by (simp add: List.map_filter_simps visit_call_def parseTestCall_def tag_char_def
          isInsideSkippedScope_def)
  show "analyzeTestFile config getRelativePath ?file = None"
    unfolding analyzeTestFile_def t by simp
qed

theorem skipped_scope_propagation_witness:
  "\<lparr>expr = ''test.fixme'', args = [], blocks = [25]\<rparr>
     \<in> set (call_expressions
       \<lparr>filePath = ''tests/g.spec.ts'',
        statements =
          [Other [CallExpression ''test.describe'' (Other [])
             [StringLiteral ''g'',
              ArrowFunction (Block 25
                [Other [CallExpression ''test.fixme'' (Other []) []],
                 Other [CallExpression ''test'' (Other [])
                   [StringLiteral ''inner'', ArrowFunction (Block 61 [])]]])]]]\<rparr>)
   \<and> parseTestCall
        \<lparr>expr = ''test'', args = [StringLiteral ''inner'', ArrowFunction (Block 61 [])],
         blocks = [25]\<rparr> []
       = Some \<lparr>skipped = False, isDescribe = False, tags = []\<rparr>
   \<and> 25 \<in> set (findSkippedScopes
       \<lparr>filePath = ''tests/g.spec.ts'',
        statements =
          [Other [CallExpression ''test.describe'' (Other [])
             [StringLiteral ''g'',
              ArrowFunction (Block 25
                [Other [CallExpression ''test.fixme'' (Other []) []],
                 Other [CallExpression ''test'' (Other [])
                   [StringLiteral ''inner'', ArrowFunction (Block 61 [])]]])]]]\<rparr>)
   \<and> visit_call []
       (findSkippedScopes
       \<lparr>filePath = ''tests/g.spec.ts'',
        statements =
          [Other [CallExpression ''test.describe'' (Other [])
             [StringLiteral ''g'',
              ArrowFunction (Block 25
                [Other [CallExpression ''test.fixme'' (Other []) []],
                 Other [CallExpression ''test'' (Other [])
                   [StringLiteral ''inner'', ArrowFunction (Block 61 [])]]])]]]\<rparr>)
       \<lparr>expr = ''test'', args = [StringLiteral ''inner'', ArrowFunction (Block 61 [])],
        blocks = [25]\<rparr>
      = Some \<lparr>skipped = True, isDescribe = False, tags = []\<rparr>"
proof -
  let ?file = "\<lparr>filePath = ''tests/g.spec.ts'',
        statements =
          [Other [CallExpression ''test.describe'' (Other [])
             [StringLiteral ''g'',
              ArrowFunction (Block 25
                [Other [CallExpression ''test.fixme'' (Other []) []],
                 Other [CallExpression ''test'' (Other [])
                   [StringLiteral ''inner'', ArrowFunction (Block 61 [])]]])]]]\<rparr>"
  let ?marker = "\<lparr>expr = ''test.fixme'', args = [], blocks = [25]\<rparr>"
  let ?test = "\<lparr>expr = ''test'', args = [StringLiteral ''inner'', ArrowFunction (Block 61 [])],
        blocks = [25]\<rparr>"
  let ?config = "\<lparr>skipTags = [], capabilityPrefix = ''@capability:''\<rparr>"
  have m: "?marker \<in> set (call_expressions ?file)"
    by (simp add: call_expressions_def)
  have hm: "(expr ?marker = ''test.fixme'' \<or> expr ?marker = ''test.skip'') \<and> args ?marker = []"
    by simp
  have hb: "blocks ?marker = 25 # []"
    by simp
  have c: "?test \<in> set (call_expressions ?file)"
    by (simp add: call_expressions_def)
  have hp: "25 \<in> set (blocks ?test)"
    by simp
  have pt: "parseTestCall ?test (skipTags ?config) =
              Some \<lparr>skipped = False, isDescribe = False, tags = []\<rparr>"
    by (simp add: parseTestCall_def)
  note t = skipped_scope_propagation[of ?file ?config,
      THEN conjunct1, THEN bspec, OF m, THEN mp, OF hm, THEN spec, THEN spec, THEN mp, OF hb]
  note t1 = t[THEN conjunct1]
  note t2 = t[THEN conjunct2, THEN bspec, OF c, THEN spec, THEN mp, OF conjI[OF hp pt]]
  from pt have pt': "parseTestCall ?test [] = Some \<lparr>skipped = False, isDescribe = False, tags = []\<rparr>"
    by simp
  from t2 have t2': "visit_call [] (findSkippedScopes ?file) ?test =
      Some \<lparr>skipped = True, isDescribe = False, tags = []\<rparr>"
    by simp
  show ?thesis
    by (rule conjI[OF m conjI[OF pt' conjI[OF t1 t2']]])
qed

subsection \<open>Capability extraction\<close>

text \<open>
  Claim C9. Whenever \<open>analyzeTestFile\<close> yields a spec, its capabilities list is the sorted,
  duplicate-free list of the set obtained from the tags of all recognized calls of the file
  (test calls, grouping calls and disable-marker calls with a title alike, whether or not
  they end up skipped) by keeping the tags that start with the configured capability prefix
  and stripping that prefix.
\<close>

theorem capabilities_from_all_tags:
  assumes "analyzeTestFile config getRelativePath file = Some spec"
  shows "capabilities spec =
           sorted_list_of_set
             {drop (length (capabilityPrefix config)) tag | tag.
                startsWith tag (capabilityPrefix config)
                \<and> (\<exists>call \<in> set (call_expressions file). \<exists>info.
                      parseTestCall call (skipTags config) = Some info \<and> tag \<in> set (tags info))}
       \<and> sorted (capabilities spec) \<and> distinct (capabilities spec)"
proof -
  let ?n = "length (capabilityPrefix config)"
  let ?all = "foldl (\<lambda>acc tag. set_add tag acc) [] (concat (map tags (extractTestCalls config file)))"
  let ?kept = "filter (\<lambda>tag. startsWith tag (capabilityPrefix config)) ?all"
  let ?caps = "map (drop ?n) ?kept"
  have c: "capabilities spec = sort ?caps"
    by (rule analyzeTestFile_Some(2)[OF assms])
  have "distinct ?all"
    by (rule distinct_fold_set_add) simp
  then have dk: "distinct ?kept" by simp
  have "inj_on (drop ?n) (set ?kept)"
    by (rule inj_on_subset[OF strip_prefix_inj]) auto
  with dk have d: "distinct ?caps"
    by (simp add: distinct_map)
  have "set ?caps = drop ?n ` {tag \<in> set ?all. startsWith tag (capabilityPrefix config)}"
    by simp
  also have "\<dots> = {drop ?n tag | tag.
                startsWith tag (capabilityPrefix config)
                \<and> (\<exists>call \<in> set (call_expressions file). \<exists>info.
                      parseTestCall call (skipTags config) = Some info \<and> tag \<in> set (tags info))}"
    unfolding set_fold_set_add extractTestCalls_tags by auto
  finally have s: "set ?caps = {drop ?n tag | tag.
                startsWith tag (capabilityPrefix config)
                \<and> (\<exists>call \<in> set (call_expressions file). \<exists>info.
                      parseTestCall call (skipTags config) = Some info \<and> tag \<in> set (tags info))}" .
  from c d s have "capabilities spec = sorted_list_of_set
             {drop ?n tag | tag.
                startsWith tag (capabilityPrefix config)
                \<and> (\<exists>call \<in> set (call_expressions file). \<exists>info.
                      parseTestCall call (skipTags config) = Some info \<and> tag \<in> set (tags info))}"
    by (simp only: sort_distinct_eq)
  moreover from c have "sorted (capabilities spec)" by simp
  moreover from c d have "distinct (capabilities spec)" by simp
  ultimately show ?thesis by blast
qed

theorem capabilities_from_all_tags_witness:
  "analyzeTestFile \<lparr>skipTags = [''@wip''], capabilityPrefix = ''@capability:''\<rparr> (\<lambda>p. p)
     \<lparr>filePath = ''tests/multi.spec.ts'',
      statements =
        [Other [CallExpression ''test.describe'' (Other [])
           [StringLiteral ''multi @capability:proxy'',
            ArrowFunction (Block 40
              [Other [CallExpression ''test'' (Other [])
                 [StringLiteral ''active'', ArrowFunction (Block 70 [])]],
               Other [CallExpression ''test.skip'' (Other [])
                 [StringLiteral ''off @capability:email @capability:proxy'',
                  ArrowFunction (Block 130 [])]]])]]]\<rparr>
     = Some \<lparr>path = ''tests/multi.spec.ts'', capabilities = [''email'', ''proxy'']\<rparr>
   \<and> capabilities \<lparr>path = ''tests/multi.spec.ts'', capabilities = [''email'', ''proxy'']\<rparr> =
       sorted_list_of_set
         {drop (length (capabilityPrefix
                  \<lparr>skipTags = [''@wip''], capabilityPrefix = ''@capability:''\<rparr>)) tag | tag.
            startsWith tag (capabilityPrefix
                  \<lparr>skipTags = [''@wip''], capabilityPrefix = ''@capability:''\<rparr>)
            \<and> (\<exists>call \<in> set (call_expressions
     \<lparr>filePath = ''tests/multi.spec.ts'',
      statements =
        [Other [CallExpression ''test.describe'' (Other [])
           [StringLiteral ''multi @capability:proxy'',
            ArrowFunction (Block 40
              [Other [CallExpression ''test'' (Other [])
                 [StringLiteral ''active'', ArrowFunction (Block 70 [])]],
               Other [CallExpression ''test.skip'' (Other [])
                 [StringLiteral ''off @capability:email @capability:proxy'',
                  ArrowFunction (Block 130 [])]]])]]]\<rparr>). \<exists>info.
                  parseTestCall call (skipTags
                  \<lparr>skipTags = [''@wip''], capabilityPrefix = ''@capability:''\<rparr>) = Some info
                  \<and> tag \<in> set (tags info))}"
proof -
  have e: "analyzeTestFile \<lparr>skipTags = [''@wip''], capabilityPrefix = ''@capability:''\<rparr> (\<lambda>p. p)
     \<lparr>filePath = ''tests/multi.spec.ts'',
      statements =
        [Other [CallExpression ''test.describe'' (Other [])
           [StringLiteral ''multi @capability:proxy'',
            ArrowFunction (Block 40
              [Other [CallExpression ''test'' (Other [])
                 [StringLiteral ''active'', ArrowFunction (Block 70 [])]],
               Other [CallExpression ''test.skip'' (Other [])
                 [StringLiteral ''off @capability:email @capability:proxy'',
                  ArrowFunction (Block 130 [])]]])]]]\<rparr>
     = Some \<lparr>path = ''tests/multi.spec.ts'', capabilities = [''email'', ''proxy'']\<rparr>"
    by code_simp
  show ?thesis
    by (rule conjI[OF e capabilities_from_all_tags[OF e, THEN conjunct1]])
qed

subsection \<open>Fixture count\<close>

text \<open>
  Claim C7. For every returned shard, \<open>fixtureCount\<close> is the number of distinct capabilities
  recorded on the shard, plus 1 if the shard contains a capability-less spec and plus 0
  otherwise, and the shard's capabilities field is the sorted list of those capabilities.
  \<open>fixtureCount_law\<close> shows this for specs with distinct paths whose first capability is
  never the empty string. The code misses the empty capability name: \<open>groupByCapability\<close>
  files a spec with capabilities \<open>['']\<close> under the capability \<open>''\<close>, but \<open>assignToShards\<close>
  tests \<open>if (item.capability)\<close>, which is false for the empty string, so the item is
  counted as standard. Discovery produces such a spec from a title like
  \<open>sends mail @capability: email\<close>, where the tag pattern matches \<open>@capability:\<close> alone.
  The shard of that spec reports no capability and \<open>fixtureCount = 1\<close>, although it holds no
  capability-less spec.
\<close>

theorem fixtureCount_empty_capability:
  "analyzeTestFile \<lparr>skipTags = [], capabilityPrefix = ''@capability:''\<rparr> (\<lambda>p. p)
     \<lparr>filePath = ''tests/mail.spec.ts'',
      statements =
        [Other [CallExpression ''test'' (Other [])
           [StringLiteral ''sends mail @capability: email'', ArrowFunction (Block 48 [])]]]\<rparr>
     = Some \<lparr>path = ''tests/mail.spec.ts'', capabilities = [[]]\<rparr>
   \<and> orchestrate [\<lparr>path = ''tests/mail.spec.ts'', capabilities = [[]]\<rparr>] 1 (map_of [])
       \<lparr>defaultDuration = 60000, maxGroupDuration = 300000\<rparr>
     = Inr \<lparr>shards =
              [\<lparr>shard = 1, specs = [''tests/mail.spec.ts''], testTime = 60000,
                shard_capabilities = [], fixtureCount = 1\<rparr>],
            totalTestTime = 60000\<rparr>"
  by (rule conjI; code_simp)

end
